theory Spec2Isabelle
  imports Complex_Main "HOL-Library.Log_Nat"
begin

section \<open>Strings\<close>

text \<open>
  Texts are lists of code units below 256. \<open>trim\<close> is \<^verbatim>\<open>String.prototype.trim\<close>
  on that range: it strips tab, line feed, vertical tab, form feed, carriage return,
  space and no-break space from both ends.
\<close>

definition LF :: char where
  "LF = CHR 0x0A"

definition CR :: char where
  "CR = CHR 0x0D"

definition is_ws :: "char \<Rightarrow> bool" where
  "is_ws c = (c \<in> set [CHR 0x09, CHR 0x0A, CHR 0x0B, CHR 0x0C, CHR 0x0D, CHR 0x20, CHR 0xA0])"

definition trim :: "string \<Rightarrow> string" where
  "trim s = rev (dropWhile is_ws (rev (dropWhile is_ws s)))"

definition startsWith :: "string \<Rightarrow> string \<Rightarrow> bool" where
  "startsWith s p = (take (length p) s = p)"

text \<open>\<^verbatim>\<open>s.replace(pat, rep)\<close> with a string pattern: the first occurrence only.\<close>

fun replace :: "string \<Rightarrow> string \<Rightarrow> string \<Rightarrow> string" where
  "replace [] pat rep = (if pat = [] then rep else [])"
| "replace (c # cs) pat rep =
     (if startsWith (c # cs) pat then rep @ drop (length pat) (c # cs)
      else c # replace cs pat rep)"

text \<open>
  \<^verbatim>\<open>text.split(/\r?\n+/)\<close>: scanning from the left, a separator starts at a carriage
  return directly followed by a line feed, or at a line feed, and extends over the whole
  run of line feeds. \<open>cur\<close> is the piece collected since the last separator.
\<close>

function split_newlines :: "string \<Rightarrow> string \<Rightarrow> string list" where
  "split_newlines cur [] = [cur]"
| "split_newlines cur (c # cs) =
     (if c = CR \<and> cs \<noteq> [] \<and> hd cs = LF
        then cur # split_newlines [] (dropWhile (\<lambda>x. x = LF) cs)
      else if c = LF
        then cur # split_newlines [] (dropWhile (\<lambda>x. x = LF) cs)
      else split_newlines (cur @ [c]) cs)"
  by pat_completeness auto
termination
  by (relation "measure (\<lambda>(cur, s). length s)")
     (auto simp: length_dropWhile_le less_Suc_eq_le)

definition segmentText :: "string \<Rightarrow> string list" where
  "segmentText txt =
     (if txt = [] then []
      else filter (\<lambda>t. length t > 0) (map trim (split_newlines [] txt)))"

section \<open>Numbers\<close>

text \<open>
  A JavaScript number is an IEEE-754 binary64 value. A finite one is represented by its
  exact rational value. \<open>round64\<close> takes a rational to the nearest binary64 value, ties
  to the even significand: 53 significant bits, and below \<open>2^-1022\<close> the fixed spacing
  \<open>2^-1074\<close> of the subnormal range. The sum of two numbers is their exact sum, rounded;
  comparisons are exact. \<open>tenth\<close> is the literal \<^verbatim>\<open>0.1\<close>; the literal \<^verbatim>\<open>0.5\<close> is \<open>1 / 2\<close>.
  The audio times that the component reads are never \<^verbatim>\<open>NaN\<close>
  (\<^verbatim>\<open>getAudioStreamerState\<close> replaces such a reading by 0). The infinities are not
  represented and the exponent has no upper bound here; the sum of a finite number and
  \<^verbatim>\<open>0.1\<close> is finite. \<open>isNumber\<close> holds of the rationals that are such values.
\<close>

definition pow2 :: "int \<Rightarrow> rat" where
  "pow2 n = (if 0 \<le> n then 2 ^ nat n else 1 / 2 ^ nat (- n))"

text \<open>For positive \<open>x\<close>, the exponent \<open>e\<close> with \<open>2^e \<le> x < 2^(e+1)\<close>.\<close>

definition exponent :: "rat \<Rightarrow> int" where
  "exponent x = (case quotient_of x of (p, q) \<Rightarrow>
       let e0 = bitlen p - bitlen q in if pow2 e0 \<le> x then e0 else e0 - 1)"

definition roundEven :: "rat \<Rightarrow> int" where
  "roundEven m = (let f = \<lfloor>m\<rfloor>; d = m - of_int f
                  in if d < 1 / 2 then f else if 1 / 2 < d then f + 1
                     else if even f then f else f + 1)"

definition round64 :: "rat \<Rightarrow> rat" where
  "round64 x = (if x = 0 then 0
                else let a = \<bar>x\<bar>; q = max (exponent a - 52) (- 1074)
                     in sgn x * (of_int (roundEven (a / pow2 q)) * pow2 q))"

definition fadd :: "rat \<Rightarrow> rat \<Rightarrow> rat" where
  "fadd x y = round64 (x + y)"

definition tenth :: rat where
  "tenth = 3602879701896397 / 36028797018963968"

definition isNumber :: "rat \<Rightarrow> bool" where
  "isNumber x = (round64 x = x)"

section \<open>Data model\<close>

datatype VoiceStyle = natural | conversational | formal | enthusiastic | breathy | dramatic

text \<open>
  Modelled from the spec: the type \<^verbatim>\<open>Transcript\<close> is declared in \<^verbatim>\<open>lib/supabase\<close>, which
  is not among the sources. A snapshot has an opaque identity, its full source text and
  the identifiers of the session and the user that own it; these are the fields the
  component reads.
\<close>

record Transcript =
  id_t :: string
  full_transcript_text :: string
  session_id :: string
  user_id :: string

record QueueItem =
  itext :: string
  refData :: "Transcript option"
  turnId :: "string option"

record translation_row =
  meeting_id :: string
  row_user_id :: string
  original_text :: string
  translated_text :: string
  row_language :: string

record audio_state =
  duration :: rat
  endOfQueueTime :: rat

text \<open>
  What a synchronous stretch of the component (the code between two awaits, or a whole
  callback) reads from outside: the status of the main client
  (\<^verbatim>\<open>client.status === 'connected'\<close>), the clock \<^verbatim>\<open>Date.now()\<close> in milliseconds, the
  audio engine \<^verbatim>\<open>getAudioStreamerState\<close>, and the identifiers that
  \<^verbatim>\<open>crypto.randomUUID()\<close> hands out (the \<open>i\<close>-th call of the stretch). A stretch reads
  one snapshot of them; the times of the audio engine are finite numbers, given by their
  exact values.
\<close>

record env =
  clientConnected :: bool
  now :: int
  getAudioStreamerState :: "string \<Rightarrow> audio_state"
  randomUUID :: "nat \<Rightarrow> string"

text \<open>
  The promise of \<^verbatim>\<open>workerWait(ms)\<close>: the delay asked for, and whether the request was
  posted to the worker (otherwise it fell back to \<^verbatim>\<open>setTimeout\<close>).
\<close>

type_synonym wait = "int \<times> bool"

text \<open>
  An instance of \<^verbatim>\<open>processQueueLoop\<close> suspended at one of its three awaits, with the
  locals it still needs: the item, the target speaker, the end-of-queue time before the
  send and \<^verbatim>\<open>waitStart\<close> in the first wait loop, \<^verbatim>\<open>playStart\<close> in the second.
  \<open>Stalled\<close> is a wait posted to a worker that has been terminated since.
\<close>

datatype pc =
    ArrivalWait QueueItem string rat int wait
  | DrainWait QueueItem string int wait
  | Inserting QueueItem
  | Stalled
  | Finished

datatype outcome = Await pc | Next

text \<open>
  Calls that leave the component, in call order (\<open>AddTurn\<close>, \<open>Sent\<close>, the warning
  \<open>ArrivalTimeout\<close>, \<open>Insert\<close>, the logged \<open>InsertFailed\<close>, \<open>UpdateTurn\<close>), together
  with four marks of its own progress: a snapshot handed to \<open>segmentText\<close>, a push to the
  queue, a shift of the queue, and the end of a drain wait. \<open>Sent item t s\<close> is the call
  \<^verbatim>\<open>sendToSpeaker(t, s)\<close>, annotated with the item it is made for.
\<close>

datatype effect =
    Segmented Transcript
  | AddTurn string string string string
  | Enqueued QueueItem
  | Dequeued QueueItem bool
  | Sent QueueItem string string
  | ArrivalTimeout
  | DrainWaitDone QueueItem
  | Insert translation_row
  | InsertFailed
  | UpdateTurn string string

record bridge =
  lastProcessedId :: "string option"
  paragraphCount :: nat
  voiceStyle :: VoiceStyle
  language :: string
  currentTurnId :: "string option"
  currentTranslationBuffer :: string
  queue :: "QueueItem list"
  isProcessing :: bool
  worker :: bool
  loops :: "pc list"
  trace :: "effect list"

definition initial :: bridge where
  "initial = \<lparr> lastProcessedId = None, paragraphCount = 0, voiceStyle = conversational,
       language = ''Taglish (Philippines)'', currentTurnId = None,
       currentTranslationBuffer = [], queue = [], isProcessing = False, worker = False,
       loops = [], trace = [] \<rparr>"

definition emit :: "effect \<Rightarrow> bridge \<Rightarrow> bridge" where
  "emit x w = w\<lparr>trace := trace w @ [x]\<rparr>"

definition push :: "QueueItem \<Rightarrow> bridge \<Rightarrow> bridge" where
  "push item w = emit (Enqueued item) (w\<lparr>queue := queue w @ [item]\<rparr>)"

text \<open>
  \<^verbatim>\<open>queueRef.current.shift()\<close>; the mark records whether the item was sent just before
  (\<open>True\<close>) or is dropped unsent (\<open>False\<close>).
\<close>

definition shift :: "bool \<Rightarrow> bridge \<Rightarrow> bridge" where
  "shift sent w = (case queue w of [] \<Rightarrow> w
                | item # rest \<Rightarrow> emit (Dequeued item sent) (w\<lparr>queue := rest\<rparr>))"

text \<open>\<^verbatim>\<open>x || null\<close> on an optional string.\<close>

definition orNull :: "string option \<Rightarrow> string option" where
  "orNull x = (case x of None \<Rightarrow> None | Some s \<Rightarrow> if s = [] then None else Some s)"

section \<open>Speaker tags and voice styles\<close>

definition detectSpeaker :: "string \<Rightarrow> string \<times> string" where
  "detectSpeaker rawText =
     (if startsWith rawText ''Male 1:'' then (''Male 1'', trim (replace rawText ''Male 1:'' []))
      else if startsWith rawText ''Male 2:'' then (''Male 2'', trim (replace rawText ''Male 2:'' []))
      else if startsWith rawText ''Female 1:'' then (''Female 1'', trim (replace rawText ''Female 1:'' []))
      else if startsWith rawText ''Female 2:'' then (''Female 2'', trim (replace rawText ''Female 2:'' []))
      else (''default'', rawText))"

definition scriptText :: "VoiceStyle \<Rightarrow> string \<Rightarrow> string" where
  "scriptText style textToSend =
     (if textToSend \<noteq> ''(clears throat)'' then
        (case style of
           breathy \<Rightarrow> ''(soft inhale) '' @ textToSend @ '' ... (pause)''
         | dramatic \<Rightarrow> ''(slowly) '' @ textToSend @ '' ... (long pause)''
         | enthusiastic \<Rightarrow> ''(excitedly) '' @ textToSend
         | formal \<Rightarrow> ''(professionally) '' @ textToSend
         | conversational \<Rightarrow> ''(casually) '' @ textToSend
         | natural \<Rightarrow> textToSend)
      else textToSend)"

section \<open>The drain loop\<close>

definition workerWait :: "int \<Rightarrow> bridge \<Rightarrow> wait" where
  "workerWait ms w = (ms, worker w)"

text \<open>The commit step, after the drain wait.\<close>

definition commit :: "QueueItem \<Rightarrow> bridge \<Rightarrow> bridge \<times> outcome" where
  "commit item w =
     (case refData item of
        Some r \<Rightarrow>
          if length (trim (currentTranslationBuffer w)) > 0
          then (emit (Insert \<lparr> meeting_id = session_id r, row_user_id = user_id r,
                                original_text = itext item,
                                translated_text = trim (currentTranslationBuffer w),
                                row_language = language w \<rparr>) w,
                Await (Inserting item))
          else (w\<lparr>currentTurnId := None\<rparr>, Next)
      | None \<Rightarrow> (w\<lparr>currentTurnId := None\<rparr>, Next))"

text \<open>The second wait loop, entered at its condition.\<close>

definition drainWait :: "env \<Rightarrow> QueueItem \<Rightarrow> string \<Rightarrow> int \<Rightarrow> bridge \<Rightarrow> bridge \<times> outcome" where
  "drainWait e item targetSpeaker playStart w =
     (if now e - playStart < 60000 \<and>
         \<not> duration (getAudioStreamerState e targetSpeaker) \<le> 1 / 2
      then (w, Await (DrainWait item targetSpeaker playStart (workerWait 100 w)))
      else commit item (emit (DrainWaitDone item) w))"

text \<open>The first wait loop, entered at its condition.\<close>

definition arrivalWait ::
  "env \<Rightarrow> QueueItem \<Rightarrow> string \<Rightarrow> rat \<Rightarrow> int \<Rightarrow> bridge \<Rightarrow> bridge \<times> outcome" where
  "arrivalWait e item targetSpeaker pre waitStart w =
     (if now e - waitStart < 15000 then
        (if endOfQueueTime (getAudioStreamerState e targetSpeaker) > fadd pre tenth
         then drainWait e item targetSpeaker (now e) w
         else (w, Await (ArrivalWait item targetSpeaker pre waitStart (workerWait 250 w))))
      else drainWait e item targetSpeaker (now e) (emit ArrivalTimeout w))"

text \<open>
  The body of the outer loop for the item at the head of the queue. The calls
  \<^verbatim>\<open>sendToSpeaker\<close> and \<^verbatim>\<open>getAudioStreamerState\<close> return; the clients and the audio
  engine behind them are outside the component.
\<close>

definition iteration :: "env \<Rightarrow> QueueItem \<Rightarrow> bridge \<Rightarrow> bridge \<times> outcome" where
  "iteration e item w0 =
     (let rawText = itext item;
          w = w0\<lparr>currentTurnId := orNull (turnId item)\<rparr>;
          (targetSpeaker, textToSend) = detectSpeaker rawText;
          scriptedText = scriptText (voiceStyle w) textToSend
      in if scriptedText = [] \<or> trim scriptedText = [] then (shift False w, Next)
         else
           let w1 = w\<lparr>currentTranslationBuffer := []\<rparr>;
               preSendState = getAudioStreamerState e targetSpeaker;
               w2 = shift True (emit (Sent item scriptedText targetSpeaker) w1)
           in arrivalWait e item targetSpeaker (endOfQueueTime preSendState) (now e) w2)"

text \<open>
  The outer loop from its condition, up to the next await (\<open>Some\<close>) or to its end
  (\<open>None\<close>, with the flag cleared).
\<close>

function processQueue :: "env \<Rightarrow> bridge \<Rightarrow> bridge \<times> pc option" where
  "processQueue e w =
     (case queue w of
        [] \<Rightarrow> (w\<lparr>isProcessing := False\<rparr>, None)
      | item # rest \<Rightarrow>
          if \<not> clientConnected e then (w\<lparr>isProcessing := False\<rparr>, None)
          else (case iteration e item w of
                  (w', Next) \<Rightarrow> processQueue e w'
                | (w', Await p) \<Rightarrow> (w', Some p)))"
  by pat_completeness auto
termination
  by (relation "measure (\<lambda>(e, w). length (queue w))")
     (auto simp: iteration_def arrivalWait_def drainWait_def commit_def emit_def shift_def
                 Let_def
           split: if_splits option.splits prod.splits)

declare processQueue.simps [simp del]

definition processQueueLoop :: "env \<Rightarrow> bridge \<Rightarrow> bridge" where
  "processQueueLoop e w =
     (if isProcessing w then w
      else (case processQueue e (w\<lparr>isProcessing := True\<rparr>) of
              (w', None) \<Rightarrow> w'
            | (w', Some p) \<Rightarrow> w'\<lparr>loops := loops w' @ [p]\<rparr>))"

text \<open>An await of instance \<open>k\<close> settles (\<open>ok\<close>: the insert did not throw).\<close>

fun continue :: "env \<Rightarrow> bool \<Rightarrow> pc \<Rightarrow> bridge \<Rightarrow> bridge \<times> outcome" where
  "continue e ok (ArrivalWait item targetSpeaker pre waitStart h) w =
     arrivalWait e item targetSpeaker pre waitStart w"
| "continue e ok (DrainWait item targetSpeaker playStart h) w =
     drainWait e item targetSpeaker playStart w"
| "continue e ok (Inserting item) w =
     ((if ok then w else emit InsertFailed w)\<lparr>currentTurnId := None\<rparr>, Next)"
| "continue e ok Stalled w = (w, Await Stalled)"
| "continue e ok Finished w = (w, Await Finished)"

definition resume :: "env \<Rightarrow> nat \<Rightarrow> bool \<Rightarrow> bridge \<Rightarrow> bridge" where
  "resume e k ok w =
     (if k < length (loops w) then
        (case continue e ok (loops w ! k) w of
           (w', Await p) \<Rightarrow> w'\<lparr>loops := (loops w')[k := p]\<rparr>
         | (w', Next) \<Rightarrow>
             (case processQueue e w' of
                (w'', None) \<Rightarrow> w''\<lparr>loops := (loops w'')[k := Finished]\<rparr>
              | (w'', Some p) \<Rightarrow> w''\<lparr>loops := (loops w'')[k := p]\<rparr>))
      else w)"

section \<open>Ingestion\<close>

definition enqueueSegment :: "env \<Rightarrow> Transcript \<Rightarrow> string \<Rightarrow> nat \<Rightarrow> bridge \<Rightarrow> bridge" where
  "enqueueSegment e d seg i w =
     (let turn = randomUUID e i;
          (speaker, uiText) = detectSpeaker seg;
          w1 = emit (AddTurn turn uiText seg speaker) w;
          w2 = push \<lparr> itext = seg, refData = Some d, turnId = Some turn \<rparr> w1;
          w3 = w2\<lparr>paragraphCount := paragraphCount w2 + 1\<rparr>
      in if paragraphCount w3 > 0 \<and> paragraphCount w3 mod 3 = 0
         then push \<lparr> itext = ''(clears throat)'', refData = None, turnId = None \<rparr> w3
         else w3)"

fun enqueueSegments :: "env \<Rightarrow> Transcript \<Rightarrow> string list \<Rightarrow> nat \<Rightarrow> bridge \<Rightarrow> bridge" where
  "enqueueSegments e d [] i w = w"
| "enqueueSegments e d (seg # segs) i w =
     enqueueSegments e d segs (Suc i) (enqueueSegment e d seg i w)"

definition processNewData :: "env \<Rightarrow> Transcript \<Rightarrow> bridge \<Rightarrow> bridge" where
  "processNewData e d w =
     (let source = full_transcript_text d
      in if source = [] then w
         else if lastProcessedId w = Some (id_t d) then w
         else
           let w1 = emit (Segmented d) (w\<lparr>lastProcessedId := Some (id_t d)\<rparr>);
               segments = segmentText source
           in if length segments > 0
              then processQueueLoop e (enqueueSegments e d segments 0 w1)
              else w1)"

definition outputListener :: "string \<Rightarrow> bridge \<Rightarrow> bridge" where
  "outputListener t w =
     (let w1 = w\<lparr>currentTranslationBuffer := currentTranslationBuffer w @ t\<rparr>
      in case orNull (currentTurnId w1) of
           Some turn \<Rightarrow> emit (UpdateTurn turn (currentTranslationBuffer w1)) w1
         | None \<Rightarrow> w1)"

section \<open>The effect around the loop, and runs of the component\<close>

fun stall :: "pc \<Rightarrow> pc" where
  "stall (ArrivalWait item targetSpeaker pre waitStart (ms, True)) = Stalled"
| "stall (DrainWait item targetSpeaker playStart (ms, True)) = Stalled"
| "stall p = p"

text \<open>
  The effect runs again with the given value of \<^verbatim>\<open>connected\<close>: first the cleanup of
  the run before (it terminates the worker, so the waits posted to it never settle), then
  the body: the flag is cleared, and when connected a non-empty queue starts the loop
  before the worker is created.
\<close>

definition effectRun :: "env \<Rightarrow> bool \<Rightarrow> bridge \<Rightarrow> bridge" where
  "effectRun e conn w =
     (let w1 = (if worker w then w\<lparr>worker := False, loops := map stall (loops w)\<rparr> else w);
          w2 = w1\<lparr>isProcessing := False\<rparr>
      in if \<not> conn then w2
         else
           let w3 = (if length (queue w2) > 0 then processQueueLoop e w2 else w2)
           in w3\<lparr>worker := True\<rparr>)"

datatype event =
    Deliver Transcript
  | Output string
  | SetVoiceStyle VoiceStyle
  | SetLanguage string
  | Settle nat bool
  | EffectRun bool

fun step :: "env \<Rightarrow> event \<Rightarrow> bridge \<Rightarrow> bridge" where
  "step e (Deliver d) w = processNewData e d w"
| "step e (Output t) w = outputListener t w"
| "step e (SetVoiceStyle s) w = w\<lparr>voiceStyle := s\<rparr>"
| "step e (SetLanguage l) w = w\<lparr>language := l\<rparr>"
| "step e (Settle k ok) w = resume e k ok w"
| "step e (EffectRun c) w = effectRun e c w"

fun run :: "(env \<times> event) list \<Rightarrow> bridge \<Rightarrow> bridge" where
  "run [] w = w"
| "run ((e, ev) # evs) w = run evs (step e ev w)"

section \<open>Reading the trace\<close>

fun segmented1 :: "effect \<Rightarrow> Transcript list" where
  "segmented1 (Segmented d) = [d]"
| "segmented1 _ = []"

fun enqueued1 :: "effect \<Rightarrow> QueueItem list" where
  "enqueued1 (Enqueued item) = [item]"
| "enqueued1 _ = []"

fun dequeued1 :: "effect \<Rightarrow> (QueueItem \<times> bool) list" where
  "dequeued1 (Dequeued item sent) = [(item, sent)]"
| "dequeued1 _ = []"

fun sent1 :: "effect \<Rightarrow> (QueueItem \<times> string \<times> string) list" where
  "sent1 (Sent item t s) = [(item, t, s)]"
| "sent1 _ = []"

fun insert1 :: "effect \<Rightarrow> translation_row list" where
  "insert1 (Insert r) = [r]"
| "insert1 _ = []"

definition segmentedSnapshots :: "effect list \<Rightarrow> Transcript list" where
  "segmentedSnapshots tr = concat (map segmented1 tr)"

definition enqueuedItems :: "effect list \<Rightarrow> QueueItem list" where
  "enqueuedItems tr = concat (map enqueued1 tr)"

definition dequeuedItems :: "effect list \<Rightarrow> (QueueItem \<times> bool) list" where
  "dequeuedItems tr = concat (map dequeued1 tr)"

definition sends :: "effect list \<Rightarrow> (QueueItem \<times> string \<times> string) list" where
  "sends tr = concat (map sent1 tr)"

definition inserts :: "effect list \<Rightarrow> translation_row list" where
  "inserts tr = concat (map insert1 tr)"

fun delivered1 :: "env \<times> event \<Rightarrow> Transcript list" where
  "delivered1 (e, Deliver d) = [d]"
| "delivered1 _ = []"

fun ended1 :: "effect \<Rightarrow> QueueItem list" where
  "ended1 (DrainWaitDone item) = [item]"
| "ended1 _ = []"

definition drainWaitsEnded :: "effect list \<Rightarrow> QueueItem list" where
  "drainWaitsEnded tr = concat (map ended1 tr)"

definition deliveries :: "(env \<times> event) list \<Rightarrow> Transcript list" where
  "deliveries evs = concat (map delivered1 evs)"

text \<open>
  Single flight, read off a trace: no send while the item sent before has not finished
  its drain wait.
\<close>

datatype flight = Violated | Clear | InFlight QueueItem

fun flightStep :: "flight \<Rightarrow> effect \<Rightarrow> flight" where
  "flightStep Violated x = Violated"
| "flightStep Clear (Sent item t s) = InFlight item"
| "flightStep (InFlight j) (Sent item t s) = Violated"
| "flightStep (InFlight j) (DrainWaitDone item) = (if item = j then Clear else InFlight j)"
| "flightStep f x = f"

definition flightOf :: "effect list \<Rightarrow> flight" where
  "flightOf tr = foldl flightStep Clear tr"








section \<open>The specification's wording\<close>

text \<open>The table of voice styles.\<close>

definition styleWrap :: "VoiceStyle \<Rightarrow> string \<Rightarrow> string" where
  "styleWrap style t =
     (case style of
        breathy \<Rightarrow> ''(soft inhale) '' @ t @ '' ... (pause)''
      | dramatic \<Rightarrow> ''(slowly) '' @ t @ '' ... (long pause)''
      | enthusiastic \<Rightarrow> ''(excitedly) '' @ t
      | formal \<Rightarrow> ''(professionally) '' @ t
      | conversational \<Rightarrow> ''(casually) '' @ t
      | natural \<Rightarrow> t)"

text \<open>
  Paragraphs: the text cut at its line feeds, each piece trimmed, the empty pieces
  dropped, in the order of the text.
\<close>

fun pieces :: "string \<Rightarrow> string list" where
  "pieces [] = [[]]"
| "pieces (c # cs) =
     (if c = LF then [] # pieces cs
      else (case pieces cs of [] \<Rightarrow> [[c]] | p # ps \<Rightarrow> (c # p) # ps))"

definition paragraphs :: "string \<Rightarrow> string list" where
  "paragraphs t = filter (\<lambda>p. p \<noteq> []) (map trim (pieces t))"

text \<open>Each distinct identifier once, in the order of first appearance.\<close>

fun firstSeen :: "string list \<Rightarrow> string list \<Rightarrow> string list" where
  "firstSeen seen [] = []"
| "firstSeen seen (x # xs) =
     (if x \<in> set seen then firstSeen seen xs else x # firstSeen (x # seen) xs)"

text \<open>The filler, and a list of real items with a filler after every third, counted from \<open>c\<close>.\<close>

definition filler :: QueueItem where
  "filler = \<lparr> itext = ''(clears throat)'', refData = None, turnId = None \<rparr>"

fun withFillers :: "nat \<Rightarrow> QueueItem list \<Rightarrow> QueueItem list" where
  "withFillers c [] = []"
| "withFillers c (x # xs) =
     (if Suc c mod 3 = 0 then x # filler # withFillers (Suc c) xs
      else x # withFillers (Suc c) xs)"

section \<open>Invariants of a session\<close>

text \<open>The items are sent in the order in which they leave the queue.\<close>

definition dispatchedInOrder :: "effect list \<Rightarrow> bool" where
  "dispatchedInOrder tr = (map fst (sends tr) = map fst (filter snd (dequeuedItems tr)))"

text \<open>
  What every stretch of the loop, and every event but a delivery, leaves as it is: the
  detector's state, the count of paragraphs, what was segmented and enqueued so far, and
  the items in queue order (those that left the queue, then those still in it).
\<close>

definition keeps :: "bridge \<Rightarrow> bridge \<Rightarrow> bool" where
  "keeps w w' =
     (lastProcessedId w' = lastProcessedId w \<and> paragraphCount w' = paragraphCount w \<and>
      segmentedSnapshots (trace w') = segmentedSnapshots (trace w) \<and>
      enqueuedItems (trace w') = enqueuedItems (trace w) \<and>
      map fst (dequeuedItems (trace w')) @ queue w' = map fst (dequeuedItems (trace w)) @ queue w \<and>
      (dispatchedInOrder (trace w) \<longrightarrow> dispatchedInOrder (trace w')))"

definition isReal :: "QueueItem \<Rightarrow> bool" where
  "isReal item = (refData item \<noteq> None)"

definition segmentsOf :: "Transcript \<Rightarrow> (string \<times> Transcript option) list" where
  "segmentsOf d = map (\<lambda>s. (s, Some d)) (segmentText (full_transcript_text d))"

definition sessionInv :: "bridge \<Rightarrow> bool" where
  "sessionInv w =
     (enqueuedItems (trace w) = map fst (dequeuedItems (trace w)) @ queue w \<and>
      dispatchedInOrder (trace w) \<and>
      map (\<lambda>i. (itext i, refData i)) (filter isReal (enqueuedItems (trace w))) =
        concat (map segmentsOf (segmentedSnapshots (trace w))) \<and>
      enqueuedItems (trace w) = withFillers 0 (filter isReal (enqueuedItems (trace w))) \<and>
      paragraphCount w = length (filter isReal (enqueuedItems (trace w))))"

definition accepted :: "Transcript \<Rightarrow> bridge \<Rightarrow> bool" where
  "accepted d w = (full_transcript_text d \<noteq> [] \<and> lastProcessedId w \<noteq> Some (id_t d))"

definition nonEmpty :: "Transcript \<Rightarrow> bool" where
  "nonEmpty d = (full_transcript_text d \<noteq> [])"

section \<open>Schedules and sample inputs\<close>

text \<open>Instance \<open>k\<close> settles once at each of the given moments, nothing else happens.\<close>

fun settles :: "nat \<Rightarrow> env list \<Rightarrow> bridge \<Rightarrow> bridge" where
  "settles k [] w = w"
| "settles k (e # es) w = settles k es (resume e k True w)"

text \<open>The timer keeps its word: each moment is at least \<open>d\<close> after the one before.\<close>

fun spaced :: "int \<Rightarrow> int \<Rightarrow> env list \<Rightarrow> bool" where
  "spaced d t [] = True"
| "spaced d t (e # es) = (t + d \<le> now e \<and> spaced d (now e) es)"

text \<open>
  Seen from a state \<open>w\<close> in a later state \<open>w'\<close>: the drain wait of \<open>item\<close> has ended since;
  the arrival wait of \<open>item\<close> held by instance \<open>k\<close> is over, that is, the instance is in
  the drain wait of the item or that drain wait has ended as well.
\<close>

fun drainingItem :: "QueueItem \<Rightarrow> pc \<Rightarrow> bool" where
  "drainingItem item (DrainWait i targetSpeaker playStart h) = (i = item)"
| "drainingItem item p = False"

definition drainWaitOver :: "QueueItem \<Rightarrow> bridge \<Rightarrow> bridge \<Rightarrow> bool" where
  "drainWaitOver item w w' = (DrainWaitDone item \<in> set (drop (length (trace w)) (trace w')))"

definition arrivalWaitOver :: "QueueItem \<Rightarrow> nat \<Rightarrow> bridge \<Rightarrow> bridge \<Rightarrow> bool" where
  "arrivalWaitOver item k w w' = (drainingItem item (loops w' ! k) \<or> drainWaitOver item w w')"

definition mkEnv :: "bool \<Rightarrow> int \<Rightarrow> rat \<Rightarrow> rat \<Rightarrow> env" where
  "mkEnv c t dur eoq = \<lparr> clientConnected = c, now = t,
     getAudioStreamerState = (\<lambda>s. \<lparr> duration = dur, endOfQueueTime = eoq \<rparr>),
     randomUUID = (\<lambda>i. replicate (Suc i) CHR ''u'') \<rparr>"

definition snapshot :: "string \<Rightarrow> string \<Rightarrow> Transcript" where
  "snapshot i t = \<lparr> id_t = i, full_transcript_text = t, session_id = ''m1'', user_id = ''u1'' \<rparr>"

text \<open>
  A snapshot whose paragraph is \<open>Male 1: (clears throat)\<close>, under the dramatic style:
  the segment is sent, the translation \<open>ehem\<close> streams in, the audio arrives and has
  played out at the first poll.
\<close>

definition throatRun :: "(env \<times> event) list" where
  "throatRun = [(mkEnv True 0 0 0, EffectRun True),
     (mkEnv True 0 0 0, SetVoiceStyle dramatic),
     (mkEnv True 0 0 0, Deliver (snapshot ''s1'' ''Male 1: (clears throat)'')),
     (mkEnv True 100 0 0, Output ''ehem''),
     (mkEnv True 250 0 3, Settle 0 True)]"

text \<open>
  Under the natural style, a snapshot whose only paragraph is the bare tag \<open>Male 1:\<close>.
\<close>

definition blankRun :: "(env \<times> event) list" where
  "blankRun = [(mkEnv True 0 0 0, EffectRun True),
     (mkEnv True 0 0 0, SetVoiceStyle natural),
     (mkEnv True 0 0 0, Deliver (snapshot ''s1'' ''Male 1:''))]"

text \<open>
  Two paragraphs; the first is sent, and when its waits are over the client is found
  disconnected. Later the connection comes back and the effect runs again.
\<close>

definition abortRun :: "(env \<times> event) list" where
  "abortRun = [(mkEnv True 0 0 0, EffectRun True),
     (mkEnv True 0 0 0, Deliver (snapshot ''s1'' ''a\<newline>b'')),
     (mkEnv False 250 0 3, Settle 0 True)]"

definition reconnect :: "(env \<times> event) list" where
  "reconnect = [(mkEnv False 300 0 3, EffectRun False), (mkEnv True 5000 0 3, EffectRun True)]"

text \<open>
  \<open>Hello\<close> is sent, translated and committed; while its insert is pending a second
  snapshot brings the bare tag \<open>Male 1:\<close>, under the natural style.
\<close>

definition dropRun :: "(env \<times> event) list" where
  "dropRun = [(mkEnv True 0 0 0, EffectRun True),
     (mkEnv True 0 0 0, SetVoiceStyle natural),
     (mkEnv True 0 0 0, Deliver (snapshot ''s1'' ''Hello'')),
     (mkEnv True 100 0 0, Output ''Hola''),
     (mkEnv True 250 0 3, Settle 0 True),
     (mkEnv True 300 0 3, Deliver (snapshot ''s2'' ''Male 1:'')),
     (mkEnv True 400 0 3, Settle 0 True)]"

definition sampleItem :: "string \<Rightarrow> QueueItem" where
  "sampleItem t = \<lparr> itext = t, refData = Some (snapshot ''s1'' t), turnId = Some ''t1'' \<rparr>"

text \<open>
  Each snapshot is delivered twice, by the poll and by the push; and a snapshot that comes
  back after another one.
\<close>

definition duplicateRun :: "(env \<times> event) list" where
  "duplicateRun = [(mkEnv True 0 0 0, EffectRun True),
     (mkEnv True 10 0 0, Deliver (snapshot ''A'' ''one'')),
     (mkEnv True 20 0 0, Deliver (snapshot ''A'' ''one'')),
     (mkEnv True 30 0 0, Deliver (snapshot ''B'' ''two'')),
     (mkEnv True 40 0 0, Deliver (snapshot ''B'' ''two''))]"

definition returnRun :: "(env \<times> event) list" where
  "returnRun = [(mkEnv True 0 0 0, EffectRun True),
     (mkEnv True 10 0 0, Deliver (snapshot ''A'' ''one'')),
     (mkEnv True 20 0 0, Deliver (snapshot ''B'' ''two'')),
     (mkEnv True 30 0 0, Deliver (snapshot ''A'' ''one''))]"





text \<open>
  Two paragraphs. While the first is in its arrival wait, served by the worker, the
  connection goes down and stays down; the clock passes 16 and 80 seconds.
\<close>

definition cutRun :: "(env \<times> event) list" where
  "cutRun = [(mkEnv True 0 0 0, EffectRun True),
     (mkEnv True 0 0 0, Deliver (snapshot ''s1'' ''a\<newline>b'')),
     (mkEnv False 300 0 0, EffectRun False),
     (mkEnv False 16000 0 3, Settle 0 True),
     (mkEnv False 80000 0 3, Settle 0 True)]"

text \<open>
  The numbers \<^verbatim>\<open>0.2\<close> and \<^verbatim>\<open>0.30000000000000004\<close>, and a paragraph sent while the
  end-of-queue time is the first; at the first poll it is the second.
\<close>

definition sampleBaseline :: rat where
  "sampleBaseline = 3602879701896397 / 18014398509481984"

definition sampleReading :: rat where
  "sampleReading = 1351079888211149 / 4503599627370496"

definition thresholdRun :: "(env \<times> event) list" where
  "thresholdRun = [(mkEnv True 0 0 sampleBaseline, EffectRun True),
     (mkEnv True 0 0 sampleBaseline, Deliver (snapshot ''s1'' ''a'')),
     (mkEnv True 250 0 sampleReading, Settle 0 True)]"


text \<open>
  An audio engine that never reports an arrival and never drains, asked every \<open>d\<close>
  milliseconds from \<open>t\<close> on; and an instance in each of the two waits since time 0, with
  one more item queued.
\<close>

definition silentSchedule :: "nat \<Rightarrow> int \<Rightarrow> int \<Rightarrow> env list" where
  "silentSchedule n d t = map (\<lambda>i. mkEnv True (t + d * (int i + 1)) 5 0) [0..<n]"

definition waiting :: bridge where
  "waiting = initial\<lparr>loops := [ArrivalWait filler ''default'' 0 0 (250, False)],
     isProcessing := True, queue := [sampleItem ''Bye'']\<rparr>"

definition draining :: bridge where
  "draining = initial\<lparr>loops := [DrainWait filler ''default'' 0 (100, False)],
     isProcessing := True, queue := [sampleItem ''Bye'']\<rparr>"

section \<open>Properties\<close>

subsection \<open>Reading the trace\<close>

lemma segmentedSnapshots_append [simp]:
  "segmentedSnapshots (a @ b) = segmentedSnapshots a @ segmentedSnapshots b"
  by (simp add: segmentedSnapshots_def)

lemma enqueuedItems_append [simp]: "enqueuedItems (a @ b) = enqueuedItems a @ enqueuedItems b"
  by (simp add: enqueuedItems_def)

lemma dequeuedItems_append [simp]: "dequeuedItems (a @ b) = dequeuedItems a @ dequeuedItems b"
  by (simp add: dequeuedItems_def)

lemma sends_append [simp]: "sends (a @ b) = sends a @ sends b"
  by (simp add: sends_def)

lemma inserts_append [simp]: "inserts (a @ b) = inserts a @ inserts b"
  by (simp add: inserts_def)

lemma projections_Nil [simp]:
  "segmentedSnapshots [] = []" "enqueuedItems [] = []" "dequeuedItems [] = []"
  "sends [] = []" "inserts [] = []"
  by (simp_all add: segmentedSnapshots_def enqueuedItems_def dequeuedItems_def sends_def
        inserts_def)

lemma projections_Cons [simp]:
  "segmentedSnapshots (x # a) = segmented1 x @ segmentedSnapshots a"
  "enqueuedItems (x # a) = enqueued1 x @ enqueuedItems a"
  "dequeuedItems (x # a) = dequeued1 x @ dequeuedItems a"
  "sends (x # a) = sent1 x @ sends a"
  "inserts (x # a) = insert1 x @ inserts a"
  by (simp_all add: segmentedSnapshots_def enqueuedItems_def dequeuedItems_def sends_def
        inserts_def)

subsection \<open>The trace only grows\<close>

lemma trace_commit: "\<exists>r. trace (fst (commit item w)) = trace w @ r"
  by (auto simp: commit_def emit_def split: option.splits)

lemma trace_drainWait: "\<exists>r. trace (fst (drainWait e item t p w)) = trace w @ r"
  using trace_commit[of item "emit (DrainWaitDone item) w"]
  by (auto simp: drainWait_def emit_def)

lemma trace_arrivalWait: "\<exists>r. trace (fst (arrivalWait e item t pre s w)) = trace w @ r"
  using trace_drainWait[of e item t "now e" w]
    trace_drainWait[of e item t "now e" "emit ArrivalTimeout w"]
  by (auto simp: arrivalWait_def emit_def)

lemma dropWhile_all: "(\<forall>x \<in> set (dropWhile P s). P x) \<longleftrightarrow> (\<forall>x \<in> set s. P x)"
  by (induction s) auto

lemma trim_Nil_iff: "trim s = [] \<longleftrightarrow> (\<forall>c \<in> set s. is_ws c)"
  by (simp add: trim_def dropWhile_all)

lemma iteration_sends:
  assumes "detectSpeaker (itext item) = (tgt, tx)"
    and "trim (scriptText (voiceStyle w) tx) \<noteq> []"
  shows "\<exists>r. trace (fst (iteration e item w)) =
           trace w @ Sent item (scriptText (voiceStyle w) tx) tgt # r"
proof -
  let ?s = "scriptText (voiceStyle w) tx"
  let ?w2 = "shift True (emit (Sent item ?s tgt)
          (w\<lparr>currentTurnId := orNull (turnId item), currentTranslationBuffer := []\<rparr>))"
  have nb: "?s \<noteq> []" using assms(2) by (auto simp: trim_def)
  have it: "iteration e item w =
      arrivalWait e item tgt (endOfQueueTime (getAudioStreamerState e tgt)) (now e) ?w2"
    using assms nb by (simp add: iteration_def Let_def)
  have "\<exists>r. trace ?w2 = trace w @ Sent item ?s tgt # r"
    by (auto simp: shift_def emit_def split: list.splits)
  then show ?thesis
    using trace_arrivalWait[of e item tgt "endOfQueueTime (getAudioStreamerState e tgt)"
        "now e" ?w2]
    unfolding it by auto
qed

lemma iteration_drops:
  assumes "detectSpeaker (itext item) = (tgt, tx)"
    and "trim (scriptText (voiceStyle w) tx) = []"
  shows "iteration e item w = (shift False (w\<lparr>currentTurnId := orNull (turnId item)\<rparr>), Next)"
  using assms by (simp add: iteration_def Let_def)

subsection \<open>Style wrapping\<close>

text \<open>
  C6, as amended. For every dispatched item whose tag-stripped text is not the literal
  \<open>(clears throat)\<close>, the text handed to \<open>sendToSpeaker\<close> is the tag-stripped text wrapped
  by the table of styles for the style that is current when the item is dispatched, and it
  goes to the speaker named by the tag: breathy gives \<open>(soft inhale) t ... (pause)\<close>,
  dramatic \<open>(slowly) t ... (long pause)\<close>, enthusiastic, formal and conversational prefix
  \<open>(excitedly)\<close>, \<open>(professionally)\<close> and \<open>(casually)\<close>, natural leaves the text unchanged.
\<close>

theorem style_wrapping:
  assumes "snd (detectSpeaker (itext item)) \<noteq> ''(clears throat)''"
    and "trim (styleWrap (voiceStyle w) (snd (detectSpeaker (itext item)))) \<noteq> []"
  shows "\<exists>r. trace (fst (iteration e item w)) =
           trace w @ Sent item (styleWrap (voiceStyle w) (snd (detectSpeaker (itext item))))
                          (fst (detectSpeaker (itext item))) # r"
proof -
  obtain tgt tx where d: "detectSpeaker (itext item) = (tgt, tx)"
    by (cases "detectSpeaker (itext item)")
  have s: "scriptText (voiceStyle w) tx = styleWrap (voiceStyle w) tx"
    using assms(1) d by (simp add: scriptText_def styleWrap_def)
  show ?thesis
    using iteration_sends[OF d, of w e] assms(2) d s by auto
qed

text \<open>The dramatic style on \<open>Hello\<close>.\<close>

theorem style_wrapping_witness:
  "snd (detectSpeaker (itext \<lparr> itext = ''Hello'', refData = None, turnId = None \<rparr>)) \<noteq> ''(clears throat)''
   \<and> trim (styleWrap (voiceStyle (initial\<lparr>voiceStyle := dramatic\<rparr>))
        (snd (detectSpeaker (itext \<lparr> itext = ''Hello'', refData = None, turnId = None \<rparr>)))) \<noteq> []
   \<and> (\<exists>r. trace (fst (iteration (mkEnv True 0 0 0) \<lparr> itext = ''Hello'', refData = None, turnId = None \<rparr>
                     (initial\<lparr>voiceStyle := dramatic\<rparr>))) =
           trace (initial\<lparr>voiceStyle := dramatic\<rparr>) @
             Sent \<lparr> itext = ''Hello'', refData = None, turnId = None \<rparr>
               ''(slowly) Hello ... (long pause)'' ''default'' # r)"
proof -
  let ?item = "\<lparr> itext = ''Hello'', refData = None, turnId = None \<rparr>"
  let ?w = "initial\<lparr>voiceStyle := dramatic\<rparr>"
  have h1: "snd (detectSpeaker (itext ?item)) \<noteq> ''(clears throat)''" by code_simp
  have h2: "trim (styleWrap (voiceStyle ?w) (snd (detectSpeaker (itext ?item)))) \<noteq> []"
    by code_simp
  have e1: "styleWrap (voiceStyle ?w) (snd (detectSpeaker (itext ?item))) = ''(slowly) Hello ... (long pause)''"
    by code_simp
  have e2: "fst (detectSpeaker (itext ?item)) = ''default''" by code_simp
  show ?thesis
    using style_wrapping[OF h1 h2, of "mkEnv True 0 0 0"] h1 h2 unfolding e1 e2 by blast
qed

text \<open>
  A snapshot whose only paragraph is \<open>(clears throat)\<close> is a real segment, and under the
  dramatic style it is sent as it is, not wrapped.
\<close>

theorem style_wrapping_counterexample:
  "sends (trace (run [(mkEnv True 0 0 0, SetVoiceStyle dramatic),
                      (mkEnv True 0 0 0, Deliver (snapshot ''s1'' ''(clears throat)''))] initial))
     = [(\<lparr> itext = ''(clears throat)'', refData = Some (snapshot ''s1'' ''(clears throat)''),
           turnId = Some ''u'' \<rparr>, ''(clears throat)'', ''default'')]
   \<and> styleWrap dramatic ''(clears throat)'' \<noteq> ''(clears throat)''"
  by code_simp

subsection \<open>The exemption from style wrapping\<close>

text \<open>
  C10. The exemption from style wrapping is decided by comparing the tag-stripped text
  with the literal \<open>(clears throat)\<close>, not by whether the item is synthetic: every item
  whose tag-stripped text is exactly \<open>(clears throat)\<close> is sent verbatim, whatever the
  style, to the speaker of its tag. A real segment of this kind keeps its snapshot
  reference and can produce a persisted record: in the run \<open>throatRun\<close> it is sent
  unwrapped to \<open>Male 1\<close> and its translation is inserted.
\<close>

theorem throat_text_exempt:
  "(snd (detectSpeaker (itext item)) = ''(clears throat)'' \<longrightarrow>
      (\<exists>r. trace (fst (iteration e item w)) =
         trace w @ Sent item ''(clears throat)'' (fst (detectSpeaker (itext item))) # r))
   \<and> sends (trace (run throatRun initial)) =
        [(\<lparr> itext = ''Male 1: (clears throat)'',
            refData = Some (snapshot ''s1'' ''Male 1: (clears throat)''),
            turnId = Some ''u'' \<rparr>, ''(clears throat)'', ''Male 1'')]
   \<and> inserts (trace (run throatRun initial)) =
        [\<lparr> meeting_id = ''m1'', row_user_id = ''u1'',
           original_text = ''Male 1: (clears throat)'', translated_text = ''ehem'',
           row_language = ''Taglish (Philippines)'' \<rparr>]"
proof (intro conjI impI)
  assume a: "snd (detectSpeaker (itext item)) = ''(clears throat)''"
  obtain tgt tx where d: "detectSpeaker (itext item) = (tgt, tx)"
    by (cases "detectSpeaker (itext item)")
  have s: "scriptText (voiceStyle w) tx = ''(clears throat)''"
    using a d by (simp add: scriptText_def)
  have "trim (scriptText (voiceStyle w) tx) \<noteq> []"
    unfolding s by code_simp
  from iteration_sends[OF d this, of e] show
    "\<exists>r. trace (fst (iteration e item w)) =
         trace w @ Sent item ''(clears throat)'' (fst (detectSpeaker (itext item))) # r"
    using d s by simp
next
  show "sends (trace (run throatRun initial)) =
        [(\<lparr> itext = ''Male 1: (clears throat)'',
            refData = Some (snapshot ''s1'' ''Male 1: (clears throat)''),
            turnId = Some ''u'' \<rparr>, ''(clears throat)'', ''Male 1'')]"
    by code_simp
next
  show "inserts (trace (run throatRun initial)) =
        [\<lparr> meeting_id = ''m1'', row_user_id = ''u1'',
           original_text = ''Male 1: (clears throat)'', translated_text = ''ehem'',
           row_language = ''Taglish (Philippines)'' \<rparr>]"
    by code_simp
qed

text \<open>A real segment tagged for \<open>Female 2\<close>, under the breathy style.\<close>

theorem throat_text_exempt_witness:
  "snd (detectSpeaker (itext \<lparr> itext = ''Female 2:  (clears throat) '', refData = Some (snapshot ''s2'' ''x''), turnId = Some ''t'' \<rparr>)) = ''(clears throat)''
   \<and> (\<exists>r. trace (fst (iteration (mkEnv True 0 0 0)
          \<lparr> itext = ''Female 2:  (clears throat) '', refData = Some (snapshot ''s2'' ''x''), turnId = Some ''t'' \<rparr>
          (initial\<lparr>voiceStyle := breathy\<rparr>))) =
         trace (initial\<lparr>voiceStyle := breathy\<rparr>) @
         Sent \<lparr> itext = ''Female 2:  (clears throat) '', refData = Some (snapshot ''s2'' ''x''), turnId = Some ''t'' \<rparr>
           ''(clears throat)'' ''Female 2'' # r)"
proof -
  let ?item = "\<lparr> itext = ''Female 2:  (clears throat) '', refData = Some (snapshot ''s2'' ''x''), turnId = Some ''t'' \<rparr>"
  have h: "snd (detectSpeaker (itext ?item)) = ''(clears throat)''" by code_simp
  have t: "fst (detectSpeaker (itext ?item)) = ''Female 2''" by code_simp
  show ?thesis
    using throat_text_exempt[of ?item "mkEnv True 0 0 0" "initial\<lparr>voiceStyle := breathy\<rparr>"] h
    unfolding t by blast
qed

subsection \<open>The loop sends the head of the queue\<close>

lemma trace_shift: "\<exists>r. trace (shift b w) = trace w @ r"
  by (auto simp: shift_def emit_def split: list.splits)

lemma trace_iteration: "\<exists>r. trace (fst (iteration e item w)) = trace w @ r"
proof -
  obtain tgt tx where d: "detectSpeaker (itext item) = (tgt, tx)"
    by (cases "detectSpeaker (itext item)")
  show ?thesis
  proof (cases "trim (scriptText (voiceStyle w) tx) = []")
    case True
    then show ?thesis
      using iteration_drops[OF d True, of e]
        trace_shift[of False "w\<lparr>currentTurnId := orNull (turnId item)\<rparr>"] by simp
  next
    case False
    then show ?thesis using iteration_sends[OF d False, of e] by auto
  qed
qed

lemma trace_processQueue: "\<exists>r. trace (fst (processQueue e w)) = trace w @ r"
proof (induction e w rule: processQueue.induct)
  case (1 e w)
  note pq = processQueue.simps[of e w]
  show ?case
  proof (cases "queue w")
    case Nil
    then show ?thesis by (simp add: pq)
  next
    case (Cons item rest)
    show ?thesis
    proof (cases "clientConnected e")
      case False
      then show ?thesis using Cons by (simp add: pq)
    next
      case True
      obtain w' out where it: "iteration e item w = (w', out)" by (cases "iteration e item w")
      from trace_iteration[of e item w] it obtain r where r: "trace w' = trace w @ r" by auto
      show ?thesis
      proof (cases out)
        case (Await p)
        then show ?thesis using Cons True it r by (simp add: pq)
      next
        case Next
        from "1.IH"[OF Cons _ it[symmetric] Next] True
        obtain r' where "trace (fst (processQueue e w')) = trace w' @ r'" by auto
        then show ?thesis using Cons True it r Next by (simp add: pq)
      qed
    qed
  qed
qed

lemma processQueue_head_sends:
  assumes "queue w = item # rest" and "clientConnected e"
    and "detectSpeaker (itext item) = (tgt, tx)"
    and "trim (scriptText (voiceStyle w) tx) \<noteq> []"
  shows "\<exists>r. trace (fst (processQueue e w)) =
           trace w @ Sent item (scriptText (voiceStyle w) tx) tgt # r"
proof -
  obtain w' out where it: "iteration e item w = (w', out)" by (cases "iteration e item w")
  from iteration_sends[OF assms(3,4), of e] it
  obtain r where r: "trace w' = trace w @ Sent item (scriptText (voiceStyle w) tx) tgt # r"
    by auto
  note pq = processQueue.simps[of e w]
  show ?thesis
  proof (cases out)
    case (Await p)
    then show ?thesis using assms(1,2) it r by (simp add: pq)
  next
    case Next
    from trace_processQueue[of e w'] obtain r' where
      "trace (fst (processQueue e w')) = trace w' @ r'" by auto
    then show ?thesis using assms(1,2) it r Next by (simp add: pq)
  qed
qed

lemma inserts_commit:
  "inserts (trace (fst (commit item w))) =
     inserts (trace w) @
     (case refData item of
        None \<Rightarrow> []
      | Some r \<Rightarrow>
          if trim (currentTranslationBuffer w) = [] then []
          else [\<lparr> meeting_id = session_id r, row_user_id = user_id r,
                  original_text = itext item,
                  translated_text = trim (currentTranslationBuffer w),
                  row_language = language w \<rparr>])"
  by (simp add: commit_def emit_def split: option.splits)

subsection \<open>Disconnection at the head of the loop\<close>

text \<open>
  C3, as amended. At the top of a drain iteration, if the main client is not connected,
  the loop stops at once and the flag is cleared; nothing is sent and nothing leaves the
  queue, so the item at the head and those behind it stay queued. The next time the loop
  is started with the client connected, it sends that same head item first (when its
  wrapped text is not blank).
\<close>

theorem abort_keeps_queue:
  assumes "queue w = item # rest" and "\<not> clientConnected e"
  shows "processQueue e w = (w\<lparr>isProcessing := False\<rparr>, None) \<and>
     (clientConnected e' \<and>
      trim (scriptText (voiceStyle w) (snd (detectSpeaker (itext item)))) \<noteq> [] \<longrightarrow>
      (\<exists>r. trace (processQueueLoop e' (fst (processQueue e w))) =
         trace w @ Sent item (scriptText (voiceStyle w) (snd (detectSpeaker (itext item))))
                     (fst (detectSpeaker (itext item))) # r))"
proof (intro conjI impI)
  show a: "processQueue e w = (w\<lparr>isProcessing := False\<rparr>, None)"
    using assms by (simp add: processQueue.simps[of e w])
  assume c: "clientConnected e' \<and>
      trim (scriptText (voiceStyle w) (snd (detectSpeaker (itext item)))) \<noteq> []"
  let ?w1 = "w\<lparr>isProcessing := True\<rparr>"
  have d: "detectSpeaker (itext item) = (fst (detectSpeaker (itext item)), snd (detectSpeaker (itext item)))"
    by simp
  from processQueue_head_sends[of ?w1 item rest e', OF _ _ d] assms(1) c
  obtain r where r: "trace (fst (processQueue e' ?w1)) =
      trace w @ Sent item (scriptText (voiceStyle w) (snd (detectSpeaker (itext item))))
                     (fst (detectSpeaker (itext item))) # r" by auto
  have "trace (processQueueLoop e' (w\<lparr>isProcessing := False\<rparr>)) = trace (fst (processQueue e' ?w1))"
    by (simp add: processQueueLoop_def split: prod.splits option.splits)
  then show "\<exists>r. trace (processQueueLoop e' (fst (processQueue e w))) =
         trace w @ Sent item (scriptText (voiceStyle w) (snd (detectSpeaker (itext item))))
                     (fst (detectSpeaker (itext item))) # r"
    unfolding a using r by simp
qed

text \<open>A queue of a real segment and a filler, met by a disconnected client.\<close>

theorem abort_keeps_queue_witness:
  "queue (initial\<lparr>queue := [sampleItem ''b'', filler], isProcessing := True\<rparr>) = sampleItem ''b'' # [filler]
   \<and> \<not> clientConnected (mkEnv False 250 0 3)
   \<and> processQueue (mkEnv False 250 0 3) (initial\<lparr>queue := [sampleItem ''b'', filler], isProcessing := True\<rparr>) =
        (initial\<lparr>queue := [sampleItem ''b'', filler], isProcessing := False\<rparr>, None)
   \<and> clientConnected (mkEnv True 5000 0 3)
   \<and> (\<exists>r. trace (processQueueLoop (mkEnv True 5000 0 3)
          (fst (processQueue (mkEnv False 250 0 3)
             (initial\<lparr>queue := [sampleItem ''b'', filler], isProcessing := True\<rparr>)))) =
         Sent (sampleItem ''b'') ''(casually) b'' ''default'' # r)"
proof -
  let ?w = "initial\<lparr>queue := [sampleItem ''b'', filler], isProcessing := True\<rparr>"
  have h1: "queue ?w = sampleItem ''b'' # [filler]" by code_simp
  have h2: "\<not> clientConnected (mkEnv False 250 0 3)" by code_simp
  have h3: "clientConnected (mkEnv True 5000 0 3) \<and>
      trim (scriptText (voiceStyle ?w) (snd (detectSpeaker (itext (sampleItem ''b''))))) \<noteq> []"
    by code_simp
  have v: "?w\<lparr>isProcessing := False\<rparr> = initial\<lparr>queue := [sampleItem ''b'', filler], isProcessing := False\<rparr>"
    "trace ?w = []"
    "scriptText (voiceStyle ?w) (snd (detectSpeaker (itext (sampleItem ''b'')))) = ''(casually) b''"
    "fst (detectSpeaker (itext (sampleItem ''b''))) = ''default''"
    by code_simp+
  from abort_keeps_queue[OF h1 h2, of "mkEnv True 5000 0 3"] have
    a: "processQueue (mkEnv False 250 0 3) ?w = (?w\<lparr>isProcessing := False\<rparr>, None)" and
    b: "clientConnected (mkEnv True 5000 0 3) \<and>
      trim (scriptText (voiceStyle ?w) (snd (detectSpeaker (itext (sampleItem ''b''))))) \<noteq> [] \<longrightarrow>
      (\<exists>r. trace (processQueueLoop (mkEnv True 5000 0 3) (fst (processQueue (mkEnv False 250 0 3) ?w))) =
         trace ?w @ Sent (sampleItem ''b'')
           (scriptText (voiceStyle ?w) (snd (detectSpeaker (itext (sampleItem ''b'')))))
           (fst (detectSpeaker (itext (sampleItem ''b'')))) # r)"
    by blast+
  from b h3 have c: "\<exists>r. trace (processQueueLoop (mkEnv True 5000 0 3)
        (fst (processQueue (mkEnv False 250 0 3) ?w))) =
         trace ?w @ Sent (sampleItem ''b'')
           (scriptText (voiceStyle ?w) (snd (detectSpeaker (itext (sampleItem ''b'')))))
           (fst (detectSpeaker (itext (sampleItem ''b'')))) # r"
    by blast
  show ?thesis
    using h1 h2 h3 a c unfolding v by simp
qed


text \<open>
  In \<open>abortRun\<close> the loop stops with \<open>b\<close> still queued; after the reconnection \<open>b\<close> is
  sent: the items left behind by the stop are not lost.
\<close>

theorem abort_keeps_queue_counterexample:
  "map itext (queue (run abortRun initial)) = [''b'']
   \<and> \<not> isProcessing (run abortRun initial)
   \<and> loops (run abortRun initial) = [Finished]
   \<and> map (\<lambda>(i, t, s). (itext i, t)) (sends (trace (run abortRun initial))) = [(''a'', ''(casually) a'')]
   \<and> map (\<lambda>(i, t, s). (itext i, t)) (sends (trace (run (abortRun @ reconnect) initial))) =
        [(''a'', ''(casually) a''), (''b'', ''(casually) b'')]"
  by code_simp



subsection \<open>Commit gating\<close>

text \<open>
  C4, as amended. For every dispatched item, when its drain wait ends (the buffered
  duration is at most half a second, or sixty seconds have passed) a record is inserted
  if and only if the item has a snapshot reference and the translation buffer is not
  empty after trimming; the record carries the snapshot's session and user, the raw text,
  the trimmed buffer and the language. An item dropped for its blank wrapped text inserts
  nothing, and neither does the filler. When an insert fails the loop logs it and goes on
  with the next queued item.
\<close>

theorem commit_gating:
  "(refData item = Some d \<and> trim (currentTranslationBuffer w) \<noteq> [] \<and>
      (60000 \<le> now e - playStart \<or> duration (getAudioStreamerState e tgt) \<le> 1 / 2) \<longrightarrow>
        inserts (trace (fst (drainWait e item tgt playStart w))) =
          inserts (trace w) @
            [\<lparr> meeting_id = session_id d, row_user_id = user_id d, original_text = itext item,
               translated_text = trim (currentTranslationBuffer w), row_language = language w \<rparr>])
   \<and> (refData item = None \<or> trim (currentTranslationBuffer w) = [] \<or>
       (now e - playStart < 60000 \<and> 1 / 2 < duration (getAudioStreamerState e tgt)) \<longrightarrow>
        inserts (trace (fst (drainWait e item tgt playStart w))) = inserts (trace w))
   \<and> (trim (scriptText (voiceStyle w) (snd (detectSpeaker (itext item)))) = [] \<longrightarrow>
        inserts (trace (fst (iteration e item w))) = inserts (trace w))
   \<and> inserts (trace (fst (drainWait e filler tgt playStart w))) = inserts (trace w)
   \<and> (k < length (loops w) \<and> loops w ! k = Inserting item \<and> queue w = next # rest \<and>
       clientConnected e \<and>
       trim (scriptText (voiceStyle w) (snd (detectSpeaker (itext next)))) \<noteq> [] \<longrightarrow>
        (\<exists>r. trace (resume e k False w) =
           trace w @ InsertFailed #
             Sent next (scriptText (voiceStyle w) (snd (detectSpeaker (itext next))))
               (fst (detectSpeaker (itext next))) # r))"
proof (intro conjI impI)
  assume "refData item = Some d \<and> trim (currentTranslationBuffer w) \<noteq> [] \<and>
      (60000 \<le> now e - playStart \<or> duration (getAudioStreamerState e tgt) \<le> 1 / 2)"
  then show "inserts (trace (fst (drainWait e item tgt playStart w))) =
          inserts (trace w) @
            [\<lparr> meeting_id = session_id d, row_user_id = user_id d, original_text = itext item,
               translated_text = trim (currentTranslationBuffer w), row_language = language w \<rparr>]"
    using inserts_commit[of item "emit (DrainWaitDone item) w"]
    by (auto simp: drainWait_def emit_def)
next
  assume "refData item = None \<or> trim (currentTranslationBuffer w) = [] \<or>
       (now e - playStart < 60000 \<and> 1 / 2 < duration (getAudioStreamerState e tgt))"
  then show "inserts (trace (fst (drainWait e item tgt playStart w))) = inserts (trace w)"
    using inserts_commit[of item "emit (DrainWaitDone item) w"]
    by (auto simp: drainWait_def emit_def split: option.splits)
next
  assume b: "trim (scriptText (voiceStyle w) (snd (detectSpeaker (itext item)))) = []"
  have d: "detectSpeaker (itext item) = (fst (detectSpeaker (itext item)), snd (detectSpeaker (itext item)))"
    by simp
  show "inserts (trace (fst (iteration e item w))) = inserts (trace w)"
    unfolding iteration_drops[OF d b]
    by (simp add: shift_def emit_def split: list.splits)
next
  show "inserts (trace (fst (drainWait e filler tgt playStart w))) = inserts (trace w)"
    using inserts_commit[of filler "emit (DrainWaitDone filler) w"]
    by (auto simp: drainWait_def emit_def filler_def)
next
  assume a: "k < length (loops w) \<and> loops w ! k = Inserting item \<and> queue w = next # rest \<and>
       clientConnected e \<and>
       trim (scriptText (voiceStyle w) (snd (detectSpeaker (itext next)))) \<noteq> []"
  let ?w1 = "(emit InsertFailed w)\<lparr>currentTurnId := None\<rparr>"
  have d: "detectSpeaker (itext next) = (fst (detectSpeaker (itext next)), snd (detectSpeaker (itext next)))"
    by simp
  from processQueue_head_sends[of ?w1 "next" rest e, OF _ _ d] a
  obtain r where r: "trace (fst (processQueue e ?w1)) =
      trace ?w1 @ Sent next (scriptText (voiceStyle w) (snd (detectSpeaker (itext next))))
               (fst (detectSpeaker (itext next))) # r"
    by (auto simp: emit_def)
  have "trace (resume e k False w) = trace (fst (processQueue e ?w1))"
    using a by (simp add: resume_def split: prod.splits option.splits)
  then show "\<exists>r. trace (resume e k False w) =
           trace w @ InsertFailed #
             Sent next (scriptText (voiceStyle w) (snd (detectSpeaker (itext next))))
               (fst (detectSpeaker (itext next))) # r"
    using r by (simp add: emit_def)
qed


text \<open>A commit, a dropped bare tag, and a failed insert followed by the next send.\<close>

theorem commit_gating_witness:
  "refData (sampleItem ''Hello'') = Some (snapshot ''s1'' ''Hello'')
   \<and> trim (currentTranslationBuffer (initial\<lparr>currentTranslationBuffer := '' Hola ''\<rparr>)) \<noteq> []
   \<and> duration (getAudioStreamerState (mkEnv True 1000 0 3) ''default'') \<le> 1 / 2
   \<and> inserts (trace (fst (drainWait (mkEnv True 1000 0 3) (sampleItem ''Hello'') ''default'' 900
         (initial\<lparr>currentTranslationBuffer := '' Hola ''\<rparr>)))) =
        [\<lparr> meeting_id = ''m1'', row_user_id = ''u1'', original_text = ''Hello'',
           translated_text = ''Hola'', row_language = ''Taglish (Philippines)'' \<rparr>]
   \<and> trim (scriptText (voiceStyle (initial\<lparr>voiceStyle := natural\<rparr>))
         (snd (detectSpeaker (itext (sampleItem ''Male 1:''))))) = []
   \<and> inserts (trace (fst (iteration (mkEnv True 1000 0 3) (sampleItem ''Male 1:'')
         (initial\<lparr>voiceStyle := natural\<rparr>)))) = []
   \<and> (\<exists>r. trace (resume (mkEnv True 1000 0 3) 0 False
          (initial\<lparr>loops := [Inserting (sampleItem ''Hello'')], queue := [sampleItem ''Bye'']\<rparr>)) =
         InsertFailed # Sent (sampleItem ''Bye'') ''(casually) Bye'' ''default'' # r)"
proof -
  let ?e = "mkEnv True 1000 0 3"
  let ?w1 = "initial\<lparr>currentTranslationBuffer := '' Hola ''\<rparr>"
  let ?w2 = "initial\<lparr>voiceStyle := natural\<rparr>"
  let ?w3 = "initial\<lparr>loops := [Inserting (sampleItem ''Hello'')], queue := [sampleItem ''Bye'']\<rparr>"
  have h1: "refData (sampleItem ''Hello'') = Some (snapshot ''s1'' ''Hello'')" by code_simp
  have h2: "trim (currentTranslationBuffer ?w1) \<noteq> []" by code_simp
  have h3: "duration (getAudioStreamerState ?e ''default'') \<le> 1 / 2" by code_simp
  have c1: "inserts (trace (fst (drainWait ?e (sampleItem ''Hello'') ''default'' 900 ?w1))) =
        inserts (trace ?w1) @
            [\<lparr> meeting_id = session_id (snapshot ''s1'' ''Hello''),
               row_user_id = user_id (snapshot ''s1'' ''Hello''),
               original_text = itext (sampleItem ''Hello''),
               translated_text = trim (currentTranslationBuffer ?w1),
               row_language = language ?w1 \<rparr>]"
    using commit_gating[of "sampleItem ''Hello''" "snapshot ''s1'' ''Hello''" ?w1 ?e 900 "''default''"]
      h1 h2 h3 by blast
  have v1: "inserts (trace ?w1) @
            [\<lparr> meeting_id = session_id (snapshot ''s1'' ''Hello''),
               row_user_id = user_id (snapshot ''s1'' ''Hello''),
               original_text = itext (sampleItem ''Hello''),
               translated_text = trim (currentTranslationBuffer ?w1),
               row_language = language ?w1 \<rparr>] =
        [\<lparr> meeting_id = ''m1'', row_user_id = ''u1'', original_text = ''Hello'',
           translated_text = ''Hola'', row_language = ''Taglish (Philippines)'' \<rparr>]"
    by code_simp
  have h4: "trim (scriptText (voiceStyle ?w2) (snd (detectSpeaker (itext (sampleItem ''Male 1:''))))) = []"
    by code_simp
  have c2: "inserts (trace (fst (iteration ?e (sampleItem ''Male 1:'') ?w2))) = inserts (trace ?w2)"
    using commit_gating[where item = "sampleItem ''Male 1:''" and w = ?w2 and e = ?e] h4
    by blast
  have v2: "inserts (trace ?w2) = []" by code_simp
  have h5: "0 < length (loops ?w3) \<and> loops ?w3 ! 0 = Inserting (sampleItem ''Hello'') \<and>
       queue ?w3 = sampleItem ''Bye'' # [] \<and> clientConnected ?e \<and>
       trim (scriptText (voiceStyle ?w3) (snd (detectSpeaker (itext (sampleItem ''Bye''))))) \<noteq> []"
    by code_simp
  have c3: "\<exists>r. trace (resume ?e 0 False ?w3) =
           trace ?w3 @ InsertFailed #
             Sent (sampleItem ''Bye'') (scriptText (voiceStyle ?w3) (snd (detectSpeaker (itext (sampleItem ''Bye'')))))
               (fst (detectSpeaker (itext (sampleItem ''Bye'')))) # r"
    using commit_gating[where w = ?w3 and e = ?e and k = 0 and item = "sampleItem ''Hello''"
        and ?next = "sampleItem ''Bye''" and rest = "[]"] h5 by blast
  have v3: "trace ?w3 = []"
    "scriptText (voiceStyle ?w3) (snd (detectSpeaker (itext (sampleItem ''Bye'')))) = ''(casually) Bye''"
    "fst (detectSpeaker (itext (sampleItem ''Bye''))) = ''default''"
    by code_simp+
  show ?thesis
    using h1 h2 h3 c1 h4 c2 c3 unfolding v1 v2 v3 by simp
qed


text \<open>
  In \<open>dropRun\<close> the second item has a snapshot reference and leaves the queue while the
  buffer holds \<open>Hola\<close>, yet the only record inserted is the one of \<open>Hello\<close>.
\<close>

theorem commit_gating_counterexample:
  "dequeuedItems (trace (run dropRun initial)) =
     [(\<lparr> itext = ''Hello'', refData = Some (snapshot ''s1'' ''Hello''), turnId = Some ''u'' \<rparr>, True),
      (\<lparr> itext = ''Male 1:'', refData = Some (snapshot ''s2'' ''Male 1:''), turnId = Some ''u'' \<rparr>, False)]
   \<and> trim (currentTranslationBuffer (run dropRun initial)) = ''Hola''
   \<and> map original_text (inserts (trace (run dropRun initial))) = [''Hello'']"
  by code_simp


subsection \<open>Blank items\<close>

text \<open>
  C9 fails on the turn context. In \<open>blankRun\<close> the only item has a blank wrapped text: it
  is dropped unsent and the loop ends, but the current turn, empty before, is left set to
  the turn of the dropped item.
\<close>

theorem blank_item_changes_turn_context:
  "currentTurnId (run (butlast blankRun) initial) = None
   \<and> currentTurnId (run blankRun initial) = Some ''u''
   \<and> dequeuedItems (trace (run blankRun initial)) =
        [(\<lparr> itext = ''Male 1:'', refData = Some (snapshot ''s1'' ''Male 1:''), turnId = Some ''u'' \<rparr>, False)]
   \<and> sends (trace (run blankRun initial)) = []
   \<and> queue (run blankRun initial) = []
   \<and> \<not> isProcessing (run blankRun initial)"
  by code_simp



subsection \<open>What the loop leaves as it is\<close>

lemma keeps_refl [simp]: "keeps w w"
  by (simp add: keeps_def)

lemma keeps_trans: "keeps w w' \<Longrightarrow> keeps w' w'' \<Longrightarrow> keeps w w''"
  by (simp add: keeps_def)

lemma keeps_commit: "keeps w (fst (commit item w))"
  by (auto simp: keeps_def commit_def emit_def dispatchedInOrder_def split: option.splits)

lemma keeps_drainWait: "keeps w (fst (drainWait e item t p w))"
proof -
  have "keeps w (emit (DrainWaitDone item) w)"
    by (simp add: keeps_def emit_def dispatchedInOrder_def)
  from keeps_trans[OF this keeps_commit] show ?thesis
    by (simp add: drainWait_def)
qed

lemma keeps_arrivalWait: "keeps w (fst (arrivalWait e item t pre s w))"
proof -
  have "keeps w (emit ArrivalTimeout w)"
    by (simp add: keeps_def emit_def dispatchedInOrder_def)
  from keeps_trans[OF this keeps_drainWait] keeps_drainWait show ?thesis
    by (simp add: arrivalWait_def)
qed

lemma keeps_iteration:
  assumes "queue w = item # rest"
  shows "keeps w (fst (iteration e item w))"
proof -
  obtain tgt tx where d: "detectSpeaker (itext item) = (tgt, tx)"
    by (cases "detectSpeaker (itext item)")
  let ?s = "scriptText (voiceStyle w) tx"
  show ?thesis
  proof (cases "trim ?s = []")
    case True
    show ?thesis
      unfolding iteration_drops[OF d True]
      using assms by (simp add: keeps_def shift_def emit_def dispatchedInOrder_def)
  next
    case False
    let ?w2 = "shift True (emit (Sent item ?s tgt)
          (w\<lparr>currentTurnId := orNull (turnId item), currentTranslationBuffer := []\<rparr>))"
    have nb: "?s \<noteq> []" using False by (auto simp: trim_def)
    have it: "iteration e item w =
        arrivalWait e item tgt (endOfQueueTime (getAudioStreamerState e tgt)) (now e) ?w2"
      using d False nb by (simp add: iteration_def Let_def)
    have "keeps w ?w2"
      using assms by (simp add: keeps_def shift_def emit_def dispatchedInOrder_def)
    from keeps_trans[OF this keeps_arrivalWait] show ?thesis
      unfolding it .
  qed
qed

lemma keeps_processQueue: "keeps w (fst (processQueue e w))"
proof (induction e w rule: processQueue.induct)
  case (1 e w)
  note pq = processQueue.simps[of e w]
  show ?case
  proof (cases "queue w")
    case Nil
    then show ?thesis by (simp add: keeps_def pq)
  next
    case (Cons item rest)
    show ?thesis
    proof (cases "clientConnected e")
      case False
      then show ?thesis using Cons by (simp add: keeps_def pq)
    next
      case True
      obtain w' out where it: "iteration e item w = (w', out)" by (cases "iteration e item w")
      from keeps_iteration[OF Cons, of e] it have k: "keeps w w'" by simp
      show ?thesis
      proof (cases out)
        case (Await p)
        then show ?thesis using Cons True it k by (simp add: pq)
      next
        case Next
        from "1.IH"[OF Cons _ it[symmetric] Next] True
        have "keeps w' (fst (processQueue e w'))" by simp
        from keeps_trans[OF k this] show ?thesis using Cons True it Next by (simp add: pq)
      qed
    qed
  qed
qed

lemma keeps_fields:
  "keeps w (w\<lparr>isProcessing := b\<rparr>)" "keeps w (w\<lparr>loops := l\<rparr>)" "keeps w (w\<lparr>worker := b\<rparr>)"
  "keeps w (w\<lparr>currentTurnId := t\<rparr>)" "keeps w (w\<lparr>currentTranslationBuffer := s\<rparr>)"
  "keeps w (w\<lparr>voiceStyle := v\<rparr>)" "keeps w (w\<lparr>language := la\<rparr>)"
  by (simp_all add: keeps_def)

lemma keeps_processQueueLoop: "keeps w (processQueueLoop e w)"
proof (cases "isProcessing w")
  case True
  then show ?thesis by (simp add: processQueueLoop_def)
next
  case False
  let ?w1 = "w\<lparr>isProcessing := True\<rparr>"
  obtain w' r where p: "processQueue e ?w1 = (w', r)" by (cases "processQueue e ?w1")
  from keeps_processQueue[of ?w1 e] p have "keeps ?w1 w'" by simp
  from keeps_trans[OF keeps_fields(1) this] have k: "keeps w w'" .
  show ?thesis
    using False p keeps_trans[OF k keeps_fields(2)] k
    by (cases r) (simp_all add: processQueueLoop_def)
qed

lemma keeps_continue: "keeps w (fst (continue e ok p w))"
proof (cases p)
  case (ArrivalWait item tgt pre ws h)
  then show ?thesis using keeps_arrivalWait by simp
next
  case (DrainWait item tgt ps h)
  then show ?thesis using keeps_drainWait by simp
next
  case (Inserting item)
  then show ?thesis by (simp add: keeps_def emit_def dispatchedInOrder_def)
qed simp_all

lemma keeps_resume: "keeps w (resume e k ok w)"
proof (cases "k < length (loops w)")
  case False
  then show ?thesis by (simp add: resume_def)
next
  case True
  obtain w' out where c: "continue e ok (loops w ! k) w = (w', out)"
    by (cases "continue e ok (loops w ! k) w")
  from keeps_continue[of w e ok "loops w ! k"] c have k1: "keeps w w'" by simp
  show ?thesis
  proof (cases out)
    case (Await p)
    then show ?thesis
      using True c keeps_trans[OF k1 keeps_fields(2)] by (simp add: resume_def)
  next
    case Next
    obtain w'' r where p: "processQueue e w' = (w'', r)" by (cases "processQueue e w'")
    from keeps_processQueue[of w' e] p have "keeps w' w''" by simp
    from keeps_trans[OF k1 this] have k2: "keeps w w''" .
    show ?thesis
      using True c Next p keeps_trans[OF k2 keeps_fields(2)]
      by (cases r) (simp_all add: resume_def)
  qed
qed

lemma keeps_outputListener: "keeps w (outputListener t w)"
  by (simp add: keeps_def outputListener_def emit_def Let_def dispatchedInOrder_def
      split: option.splits)

lemma keeps_effectRun: "keeps w (effectRun e c w)"
proof -
  let ?w1 = "if worker w then w\<lparr>worker := False, loops := map stall (loops w)\<rparr> else w"
  let ?w2 = "?w1\<lparr>isProcessing := False\<rparr>"
  have k2: "keeps w ?w2" by (simp add: keeps_def)
  have k3: "keeps w (if length (queue ?w2) > 0 then processQueueLoop e ?w2 else ?w2)"
    using keeps_trans[OF k2 keeps_processQueueLoop] k2 by presburger
  show ?thesis
    using k2 keeps_trans[OF k3 keeps_fields(3)]
    by (simp add: effectRun_def Let_def)
qed


subsection \<open>The invariant of a session\<close>

lemma withFillers_append:
  "withFillers c (xs @ ys) = withFillers c xs @ withFillers (c + length xs) ys"
  by (induction xs arbitrary: c) auto

lemma filter_withFillers:
  "\<forall>x \<in> set xs. isReal x \<Longrightarrow> filter isReal (withFillers c xs) = xs"
  by (induction xs arbitrary: c) (auto simp: isReal_def filler_def)

lemma sessionInv_keeps:
  assumes "sessionInv w" and "keeps w w'"
  shows "sessionInv w'"
proof -
  from assms(2) have k:
    "paragraphCount w' = paragraphCount w"
    "segmentedSnapshots (trace w') = segmentedSnapshots (trace w)"
    "enqueuedItems (trace w') = enqueuedItems (trace w)"
    "map fst (dequeuedItems (trace w')) @ queue w' = map fst (dequeuedItems (trace w)) @ queue w"
    "dispatchedInOrder (trace w) \<longrightarrow> dispatchedInOrder (trace w')"
    by (simp_all add: keeps_def)
  show ?thesis
    using assms(1) unfolding sessionInv_def k(1-4) using k(5) by blast
qed

lemma enqueueSegment_effect:
  "\<exists>x. isReal x \<and> itext x = seg \<and> refData x = Some d \<and>
       enqueuedItems (trace (enqueueSegment e d seg i w)) =
         enqueuedItems (trace w) @ withFillers (paragraphCount w) [x] \<and>
       queue (enqueueSegment e d seg i w) = queue w @ withFillers (paragraphCount w) [x] \<and>
       paragraphCount (enqueueSegment e d seg i w) = Suc (paragraphCount w) \<and>
       dequeuedItems (trace (enqueueSegment e d seg i w)) = dequeuedItems (trace w) \<and>
       sends (trace (enqueueSegment e d seg i w)) = sends (trace w) \<and>
       segmentedSnapshots (trace (enqueueSegment e d seg i w)) = segmentedSnapshots (trace w) \<and>
       lastProcessedId (enqueueSegment e d seg i w) = lastProcessedId w"
  by (rule exI[of _ "\<lparr> itext = seg, refData = Some d, turnId = Some (randomUUID e i) \<rparr>"])
     (simp add: enqueueSegment_def Let_def push_def emit_def isReal_def filler_def
        split: prod.splits)

lemma enqueueSegments_effect:
  "\<exists>xs. (\<forall>x \<in> set xs. isReal x) \<and> map (\<lambda>i. (itext i, refData i)) xs = map (\<lambda>s. (s, Some d)) segs \<and>
       enqueuedItems (trace (enqueueSegments e d segs i w)) =
         enqueuedItems (trace w) @ withFillers (paragraphCount w) xs \<and>
       queue (enqueueSegments e d segs i w) = queue w @ withFillers (paragraphCount w) xs \<and>
       paragraphCount (enqueueSegments e d segs i w) = paragraphCount w + length xs \<and>
       dequeuedItems (trace (enqueueSegments e d segs i w)) = dequeuedItems (trace w) \<and>
       sends (trace (enqueueSegments e d segs i w)) = sends (trace w) \<and>
       segmentedSnapshots (trace (enqueueSegments e d segs i w)) = segmentedSnapshots (trace w) \<and>
       lastProcessedId (enqueueSegments e d segs i w) = lastProcessedId w"
proof (induction segs arbitrary: i w)
  case Nil
  show ?case by (rule exI[of _ "[]"]) simp
next
  case (Cons seg segs)
  let ?w1 = "enqueueSegment e d seg i w"
  from enqueueSegment_effect[of seg d e i w] obtain x where
    x: "isReal x" "itext x = seg" "refData x = Some d"
       "enqueuedItems (trace ?w1) = enqueuedItems (trace w) @ withFillers (paragraphCount w) [x]"
       "queue ?w1 = queue w @ withFillers (paragraphCount w) [x]"
       "paragraphCount ?w1 = Suc (paragraphCount w)"
       "dequeuedItems (trace ?w1) = dequeuedItems (trace w)"
       "sends (trace ?w1) = sends (trace w)"
       "segmentedSnapshots (trace ?w1) = segmentedSnapshots (trace w)"
       "lastProcessedId ?w1 = lastProcessedId w"
    by blast
  from Cons.IH[of "Suc i" ?w1] obtain xs where
    xs: "\<forall>x \<in> set xs. isReal x" "map (\<lambda>i. (itext i, refData i)) xs = map (\<lambda>s. (s, Some d)) segs"
       "enqueuedItems (trace (enqueueSegments e d segs (Suc i) ?w1)) =
         enqueuedItems (trace ?w1) @ withFillers (paragraphCount ?w1) xs"
       "queue (enqueueSegments e d segs (Suc i) ?w1) = queue ?w1 @ withFillers (paragraphCount ?w1) xs"
       "paragraphCount (enqueueSegments e d segs (Suc i) ?w1) = paragraphCount ?w1 + length xs"
       "dequeuedItems (trace (enqueueSegments e d segs (Suc i) ?w1)) = dequeuedItems (trace ?w1)"
       "sends (trace (enqueueSegments e d segs (Suc i) ?w1)) = sends (trace ?w1)"
       "segmentedSnapshots (trace (enqueueSegments e d segs (Suc i) ?w1)) = segmentedSnapshots (trace ?w1)"
       "lastProcessedId (enqueueSegments e d segs (Suc i) ?w1) = lastProcessedId ?w1"
    by blast
  have wf: "withFillers (paragraphCount w) (x # xs) =
      withFillers (paragraphCount w) [x] @ withFillers (Suc (paragraphCount w)) xs"
    using withFillers_append[of "paragraphCount w" "[x]" xs] by simp
  show ?case
    apply (rule exI[of _ "x # xs"])
    using x xs unfolding wf by simp
qed

lemma sessionInv_enqueueSegments:
  assumes "sessionInv w"
  shows "sessionInv (enqueueSegments e d (segmentText (full_transcript_text d)) i (emit (Segmented d) (w\<lparr>lastProcessedId := l\<rparr>)))"
proof -
  let ?w1 = "emit (Segmented d) (w\<lparr>lastProcessedId := l\<rparr>)"
  let ?segs = "segmentText (full_transcript_text d)"
  let ?w2 = "enqueueSegments e d ?segs i ?w1"
  from enqueueSegments_effect[of d ?segs e i ?w1] obtain xs where
    xs: "\<forall>x \<in> set xs. isReal x" "map (\<lambda>i. (itext i, refData i)) xs = map (\<lambda>s. (s, Some d)) ?segs"
       "enqueuedItems (trace ?w2) = enqueuedItems (trace ?w1) @ withFillers (paragraphCount ?w1) xs"
       "queue ?w2 = queue ?w1 @ withFillers (paragraphCount ?w1) xs"
       "paragraphCount ?w2 = paragraphCount ?w1 + length xs"
       "dequeuedItems (trace ?w2) = dequeuedItems (trace ?w1)"
       "sends (trace ?w2) = sends (trace ?w1)"
       "segmentedSnapshots (trace ?w2) = segmentedSnapshots (trace ?w1)"
    by blast
  have w1: "enqueuedItems (trace ?w1) = enqueuedItems (trace w)" "queue ?w1 = queue w"
    "paragraphCount ?w1 = paragraphCount w" "dequeuedItems (trace ?w1) = dequeuedItems (trace w)"
    "sends (trace ?w1) = sends (trace w)"
    "segmentedSnapshots (trace ?w1) = segmentedSnapshots (trace w) @ [d]"
    by (simp_all add: emit_def)
  have f: "filter isReal (enqueuedItems (trace ?w2)) = filter isReal (enqueuedItems (trace w)) @ xs"
    using xs(1,3) w1 filter_withFillers[OF xs(1)] by simp
  from assms have inv:
    "enqueuedItems (trace w) = map fst (dequeuedItems (trace w)) @ queue w"
    "dispatchedInOrder (trace w)"
    "map (\<lambda>i. (itext i, refData i)) (filter isReal (enqueuedItems (trace w))) =
        concat (map segmentsOf (segmentedSnapshots (trace w)))"
    "enqueuedItems (trace w) = withFillers 0 (filter isReal (enqueuedItems (trace w)))"
    "paragraphCount w = length (filter isReal (enqueuedItems (trace w)))"
    unfolding sessionInv_def by blast+
  have i1: "enqueuedItems (trace ?w2) = map fst (dequeuedItems (trace ?w2)) @ queue ?w2"
    unfolding xs(3,4,6) w1 using inv(1) by simp
  have i2: "dispatchedInOrder (trace ?w2)"
    using inv(2) unfolding dispatchedInOrder_def xs(6,7) w1 .
  have i3: "map (\<lambda>i. (itext i, refData i)) (filter isReal (enqueuedItems (trace ?w2))) =
        concat (map segmentsOf (segmentedSnapshots (trace ?w2)))"
    unfolding f xs(8) w1 using inv(3) xs(2) by (simp add: segmentsOf_def)
  have i4: "enqueuedItems (trace ?w2) = withFillers 0 (filter isReal (enqueuedItems (trace ?w2)))"
    unfolding f withFillers_append unfolding xs(3) w1 inv(5) using inv(4) by simp
  have i5: "paragraphCount ?w2 = length (filter isReal (enqueuedItems (trace ?w2)))"
    unfolding f xs(5) w1 using inv(5) by simp
  show ?thesis
    unfolding sessionInv_def using i1 i2 i3 i4 i5 by blast
qed

lemma sessionInv_processNewData:
  assumes "sessionInv w"
  shows "sessionInv (processNewData e d w)"
proof (cases "full_transcript_text d = [] \<or> lastProcessedId w = Some (id_t d)")
  case True
  then show ?thesis using assms by (auto simp: processNewData_def Let_def)
next
  case False
  let ?w1 = "emit (Segmented d) (w\<lparr>lastProcessedId := Some (id_t d)\<rparr>)"
  let ?segs = "segmentText (full_transcript_text d)"
  have s2: "sessionInv (enqueueSegments e d ?segs 0 ?w1)"
    using sessionInv_enqueueSegments[OF assms] .
  show ?thesis
  proof (cases "?segs = []")
    case True
    have "processNewData e d w = ?w1"
      using False True by (simp add: processNewData_def Let_def)
    then show ?thesis using s2 True by simp
  next
    case nonempty: False
    have "processNewData e d w = processQueueLoop e (enqueueSegments e d ?segs 0 ?w1)"
      using False nonempty by (simp add: processNewData_def Let_def)
    then show ?thesis using sessionInv_keeps[OF s2 keeps_processQueueLoop] by simp
  qed
qed

lemma sessionInv_step: "sessionInv w \<Longrightarrow> sessionInv (step e ev w)"
proof (cases ev)
  case (Deliver d)
  then show "sessionInv w \<Longrightarrow> sessionInv (step e ev w)" using sessionInv_processNewData by simp
next
  case (Output t)
  then show "sessionInv w \<Longrightarrow> sessionInv (step e ev w)"
    using sessionInv_keeps[OF _ keeps_outputListener] by simp
next
  case (SetVoiceStyle s)
  then show "sessionInv w \<Longrightarrow> sessionInv (step e ev w)"
    using sessionInv_keeps[OF _ keeps_fields(6)] by simp
next
  case (SetLanguage l)
  then show "sessionInv w \<Longrightarrow> sessionInv (step e ev w)"
    using sessionInv_keeps[OF _ keeps_fields(7)] by simp
next
  case (Settle k ok)
  then show "sessionInv w \<Longrightarrow> sessionInv (step e ev w)"
    using sessionInv_keeps[OF _ keeps_resume] by simp
next
  case (EffectRun c)
  then show "sessionInv w \<Longrightarrow> sessionInv (step e ev w)"
    using sessionInv_keeps[OF _ keeps_effectRun] by simp
qed

lemma sessionInv_run: "sessionInv w \<Longrightarrow> sessionInv (run evs w)"
  by (induction evs arbitrary: w) (auto simp: sessionInv_step)

lemma sessionInv_initial: "sessionInv initial"
  by (simp add: sessionInv_def initial_def dispatchedInOrder_def)


subsection \<open>Segmentation cuts the text into its paragraphs\<close>

lemma pieces_not_Nil: "pieces s \<noteq> []"
  by (induction s) (auto split: list.splits)

lemma trim_snoc_ws:
  assumes "is_ws c"
  shows "trim (s @ [c]) = trim s"
proof (cases "\<forall>x \<in> set s. is_ws x")
  case True
  then have "trim s = []" by (simp add: trim_Nil_iff)
  moreover have "trim (s @ [c]) = []" using True assms by (simp add: trim_Nil_iff)
  ultimately show ?thesis by simp
next
  case False
  then have "dropWhile is_ws (s @ [c]) = dropWhile is_ws s @ [c]"
    by (simp add: dropWhile_append)
  then show ?thesis using assms by (simp add: trim_def)
qed

lemma trim_Nil [simp]: "trim [] = []"
  by (simp add: trim_def)

lemma pieces_skip_LF:
  "filter (\<lambda>p. p \<noteq> []) (map trim (pieces (dropWhile (\<lambda>x. x = LF) s))) =
   filter (\<lambda>p. p \<noteq> []) (map trim (pieces s))"
  by (induction s) auto

lemma split_newlines_pieces:
  "filter (\<lambda>p. p \<noteq> []) (map trim (split_newlines cur s)) =
   filter (\<lambda>p. p \<noteq> []) (map trim ((cur @ hd (pieces s)) # tl (pieces s)))"
proof (induction cur s rule: split_newlines.induct)
  case (1 cur)
  show ?case by simp
next
  case (2 cur c cs)
  have glue: "\<And>t. filter (\<lambda>p. p \<noteq> []) (map trim (([] @ hd (pieces t)) # tl (pieces t))) =
      filter (\<lambda>p. p \<noteq> []) (map trim (pieces t))"
    using pieces_not_Nil by (metis append_Nil list.collapse)
  show ?case
  proof (cases "c = CR \<and> cs \<noteq> [] \<and> hd cs = LF")
    case True
    then obtain cs' where cs: "cs = LF # cs'" by (cases cs) auto
    have ne: "CR \<noteq> LF" by (simp add: CR_def LF_def)
    have ws: "is_ws CR" by (simp add: CR_def is_ws_def)
    have "filter (\<lambda>p. p \<noteq> []) (map trim (split_newlines [] (dropWhile (\<lambda>x. x = LF) cs))) =
        filter (\<lambda>p. p \<noteq> []) (map trim (pieces cs'))"
      using "2.IH"(1)[OF True] glue[of "dropWhile (\<lambda>x. x = LF) cs"] pieces_skip_LF[of cs]
      by (simp add: cs)
    moreover have "split_newlines cur (c # cs) =
        cur # split_newlines [] (dropWhile (\<lambda>x. x = LF) cs)" using True by simp
    moreover have "pieces (c # cs) = [CR] # pieces cs'" using True ne by (simp add: cs)
    ultimately show ?thesis
      using trim_snoc_ws[OF ws, of cur] by simp
  next
    case notcr: False
    show ?thesis
    proof (cases "c = LF")
      case True
      have *: "filter (\<lambda>p. p \<noteq> []) (map trim (split_newlines [] (dropWhile (\<lambda>x. x = LF) cs))) =
          filter (\<lambda>p. p \<noteq> []) (map trim (pieces cs))"
        using "2.IH"(2)[OF notcr True] glue[of "dropWhile (\<lambda>x. x = LF) cs"] pieces_skip_LF[of cs]
        by simp
      have ne: "CR \<noteq> LF" by (simp add: CR_def LF_def)
      from this True have "split_newlines cur (c # cs) =
          cur # split_newlines [] (dropWhile (\<lambda>x. x = LF) cs)" by simp
      then show ?thesis using True * by simp
    next
      case False
      obtain p ps where p: "pieces cs = p # ps" using pieces_not_Nil by (cases "pieces cs") auto
      have "split_newlines cur (c # cs) = split_newlines (cur @ [c]) cs"
        using notcr False by auto
      moreover have "pieces (c # cs) = (c # p) # ps" using False p by simp
      ultimately show ?thesis
        using "2.IH"(3)[OF notcr False] p by simp
    qed
  qed
qed

lemma segmentText_paragraphs: "segmentText t = paragraphs t"
proof (cases "t = []")
  case True
  then show ?thesis by (simp add: segmentText_def paragraphs_def)
next
  case False
  have "(cur @ hd (pieces t)) # tl (pieces t) = pieces t" if "cur = []" for cur
    using that pieces_not_Nil by simp
  then show ?thesis
    using False split_newlines_pieces[of "[]" t]
    by (simp add: segmentText_def paragraphs_def)
qed


subsection \<open>The change detector\<close>

lemma deliveries_simps [simp]:
  "deliveries [] = []" "deliveries (x # evs) = delivered1 x @ deliveries evs"
  by (simp_all add: deliveries_def)

lemma remdups_adj_snoc:
  "remdups_adj (xs @ [x]) = (if xs \<noteq> [] \<and> last xs = x then remdups_adj xs else remdups_adj xs @ [x])"
proof (cases xs rule: rev_cases)
  case Nil
  then show ?thesis by simp
next
  case (snoc ys y)
  then show ?thesis using remdups_adj_append_two[of ys y x] by simp
qed

lemma firstSeen_remdups_adj:
  "s \<in> set seen \<Longrightarrow> set seen \<inter> set xs \<subseteq> {s} \<Longrightarrow> distinct (remdups_adj (s # xs)) \<Longrightarrow>
   s # firstSeen seen xs = remdups_adj (s # xs)"
proof (induction xs arbitrary: s seen)
  case Nil
  show ?case by simp
next
  case (Cons x xs)
  show ?case
  proof (cases "x = s")
    case True
    from Cons.prems have "set seen \<inter> set xs \<subseteq> {s}" "distinct (remdups_adj (s # xs))"
      using True by auto
    from Cons.IH[OF Cons.prems(1) this] show ?thesis using True Cons.prems(1) by simp
  next
    case False
    from Cons.prems(2) False have nx: "x \<notin> set seen" by auto
    from Cons.prems(3) False have d: "s \<notin> set (x # xs)" "distinct (remdups_adj (x # xs))"
      by simp_all
    have "set (x # seen) \<inter> set xs \<subseteq> {x}" using Cons.prems(2) d(1) by auto
    from Cons.IH[OF _ this d(2)] show ?thesis using False nx by simp
  qed
qed

lemma firstSeen_no_return:
  assumes "distinct (remdups_adj xs)"
  shows "remdups_adj xs = firstSeen [] xs"
proof (cases xs)
  case Nil
  then show ?thesis by simp
next
  case (Cons x xs')
  have "x # firstSeen [x] xs' = remdups_adj (x # xs')"
    using firstSeen_remdups_adj[of x "[x]" xs'] assms Cons by simp
  then show ?thesis using Cons by simp
qed

lemma detector_processNewData:
  "lastProcessedId (processNewData e d w) =
     (if accepted d w then Some (id_t d) else lastProcessedId w) \<and>
   segmentedSnapshots (trace (processNewData e d w)) =
     segmentedSnapshots (trace w) @ (if accepted d w then [d] else [])"
proof (cases "accepted d w")
  case False
  then show ?thesis by (auto simp: accepted_def processNewData_def Let_def)
next
  case True
  let ?w1 = "emit (Segmented d) (w\<lparr>lastProcessedId := Some (id_t d)\<rparr>)"
  let ?segs = "segmentText (full_transcript_text d)"
  let ?w2 = "enqueueSegments e d ?segs 0 ?w1"
  from enqueueSegments_effect[of d ?segs e 0 ?w1] have
    w2: "segmentedSnapshots (trace ?w2) = segmentedSnapshots (trace w) @ [d]"
        "lastProcessedId ?w2 = Some (id_t d)"
    by (auto simp: emit_def)
  from keeps_processQueueLoop[of ?w2 e] have
    w3: "segmentedSnapshots (trace (processQueueLoop e ?w2)) = segmentedSnapshots (trace ?w2)"
        "lastProcessedId (processQueueLoop e ?w2) = lastProcessedId ?w2"
    by (simp_all add: keeps_def)
  have "processNewData e d w = (if ?segs = [] then ?w1 else processQueueLoop e ?w2)"
    using True by (simp add: accepted_def processNewData_def Let_def)
  then show ?thesis using True w2 w3 by (auto simp: emit_def)
qed

lemma detector_step:
  assumes "map id_t (segmentedSnapshots (trace w)) = remdups_adj ids"
    and "lastProcessedId w = (if ids = [] then None else Some (last ids))"
  shows "map id_t (segmentedSnapshots (trace (step e ev w))) =
           remdups_adj (ids @ map id_t (filter nonEmpty (delivered1 (e, ev)))) \<and>
         lastProcessedId (step e ev w) =
           (if ids @ map id_t (filter nonEmpty (delivered1 (e, ev))) = [] then None
            else Some (last (ids @ map id_t (filter nonEmpty (delivered1 (e, ev))))))"
proof (cases ev)
  case (Deliver d)
  show ?thesis
    using assms detector_processNewData[of e d w] Deliver
    by (auto simp: accepted_def nonEmpty_def remdups_adj_snoc)
next
  case (Output t)
  then show ?thesis using assms keeps_outputListener[of w t] by (simp add: keeps_def)
next
  case (SetVoiceStyle s)
  then show ?thesis using assms by simp
next
  case (SetLanguage l)
  then show ?thesis using assms by simp
next
  case (Settle k ok)
  then show ?thesis using assms keeps_resume[of w e k ok] by (simp add: keeps_def)
next
  case (EffectRun c)
  then show ?thesis using assms keeps_effectRun[of w e c] by (simp add: keeps_def)
qed

lemma detector_run:
  assumes "map id_t (segmentedSnapshots (trace w)) = remdups_adj ids"
    and "lastProcessedId w = (if ids = [] then None else Some (last ids))"
  shows "map id_t (segmentedSnapshots (trace (run evs w))) =
           remdups_adj (ids @ map id_t (filter nonEmpty (deliveries evs)))"
  using assms
proof (induction evs arbitrary: w ids)
  case Nil
  then show ?case by simp
next
  case (Cons x evs)
  obtain e ev where x: "x = (e, ev)" by (cases x)
  from detector_step[OF Cons.prems, of e ev]
  have "map id_t (segmentedSnapshots (trace (run evs (step e ev w)))) =
      remdups_adj ((ids @ map id_t (filter nonEmpty (delivered1 (e, ev)))) @
        map id_t (filter nonEmpty (deliveries evs)))"
    by (intro Cons.IH) simp_all
  then show ?case using x by simp
qed

text \<open>
  C1, as amended. A delivery is handed to segmentation if and only if its text is not
  empty and its identifier differs from the one accepted last. So, for every sequence of
  events (deliveries by poll and push interleaved with anything else), the identifiers
  handed to segmentation are those of the delivered non-empty snapshots with adjacent
  repetitions collapsed: an identifier is never processed twice in a row, and it is
  processed again when another one was accepted in between. When no identifier comes back
  after another one, each distinct identifier is processed exactly once, in first-seen
  order.
\<close>

theorem detector_dedup:
  "segmentedSnapshots (trace (processNewData e d w)) =
     segmentedSnapshots (trace w) @
       (if full_transcript_text d \<noteq> [] \<and> lastProcessedId w \<noteq> Some (id_t d) then [d] else [])
   \<and> map id_t (segmentedSnapshots (trace (run evs initial))) =
        remdups_adj (map id_t (filter nonEmpty (deliveries evs)))
   \<and> (distinct (remdups_adj (map id_t (filter nonEmpty (deliveries evs)))) \<longrightarrow>
        map id_t (segmentedSnapshots (trace (run evs initial))) =
          firstSeen [] (map id_t (filter nonEmpty (deliveries evs))))"
proof -
  have r: "map id_t (segmentedSnapshots (trace (run evs initial))) =
        remdups_adj (map id_t (filter nonEmpty (deliveries evs)))"
    using detector_run[of initial "[]" evs] by (simp add: initial_def)
  show ?thesis
    using detector_processNewData[of e d w] r firstSeen_no_return
    by (simp add: accepted_def)
qed

text \<open>Poll and push both deliver \<open>A\<close>, then both deliver \<open>B\<close>.\<close>

theorem detector_dedup_witness:
  "distinct (remdups_adj (map id_t (filter nonEmpty (deliveries duplicateRun))))
   \<and> map id_t (segmentedSnapshots (trace (run duplicateRun initial))) = [''A'', ''B'']
   \<and> firstSeen [] (map id_t (filter nonEmpty (deliveries duplicateRun))) = [''A'', ''B'']"
proof -
  have h: "distinct (remdups_adj (map id_t (filter nonEmpty (deliveries duplicateRun))))"
    by code_simp
  have v: "firstSeen [] (map id_t (filter nonEmpty (deliveries duplicateRun))) = [''A'', ''B'']"
    by code_simp
  show ?thesis using detector_dedup[of _ _ _ duplicateRun] h unfolding v by blast
qed

text \<open>
  \<open>A\<close>, then \<open>B\<close>, then \<open>A\<close> again: \<open>A\<close> is segmented a second time, although it was
  processed before.
\<close>

theorem detector_dedup_counterexample:
  "map id_t (segmentedSnapshots (trace (run returnRun initial))) = [''A'', ''B'', ''A'']
   \<and> firstSeen [] (map id_t (deliveries returnRun)) = [''A'', ''B'']"
  by code_simp

subsection \<open>Ordering\<close>

text \<open>
  C5. In every run from the initial state: the items leave the queue in the order in
  which they were enqueued; the items sent are, in order, those that left the queue to
  be sent, whatever speaker each one targets; the real items enqueued carry, in order,
  the segments of the snapshots handed to segmentation, each with its snapshot; and the
  segments of a text are its paragraphs in the order of the text (the text cut at its
  line feeds, each piece trimmed, the empty pieces dropped).
\<close>

theorem ordering:
  "enqueuedItems (trace (run evs initial)) =
     map fst (dequeuedItems (trace (run evs initial))) @ queue (run evs initial)
   \<and> map fst (sends (trace (run evs initial))) =
       map fst (filter snd (dequeuedItems (trace (run evs initial))))
   \<and> map (\<lambda>i. (itext i, refData i)) (filter isReal (enqueuedItems (trace (run evs initial)))) =
       concat (map segmentsOf (segmentedSnapshots (trace (run evs initial))))
   \<and> segmentText t = paragraphs t"
  using sessionInv_run[OF sessionInv_initial, of evs] segmentText_paragraphs[of t]
  unfolding sessionInv_def dispatchedInOrder_def by blast

subsection \<open>Filler injection\<close>

text \<open>
  C7. In every run from the initial state, the items enqueued so far are the real
  segments with the filler right after every third of them, counted over the whole run;
  the counter equals the number of real segments enqueued and is never reset. The filler
  has the text \<open>(clears throat)\<close>, no snapshot reference and no turn, and when it is
  dispatched it is sent as it is, under every style.
\<close>

theorem filler_injection:
  "enqueuedItems (trace (run evs initial)) =
     withFillers 0 (filter isReal (enqueuedItems (trace (run evs initial))))
   \<and> paragraphCount (run evs initial) =
       length (filter isReal (enqueuedItems (trace (run evs initial))))
   \<and> (\<exists>r. trace (fst (iteration e filler w)) =
         trace w @ Sent filler ''(clears throat)'' ''default'' # r)"
proof -
  have d: "detectSpeaker (itext filler) = (''default'', ''(clears throat)'')" by code_simp
  have s: "scriptText (voiceStyle w) ''(clears throat)'' = ''(clears throat)''"
    by (simp add: scriptText_def)
  have "trim (scriptText (voiceStyle w) ''(clears throat)'') \<noteq> []"
    unfolding s by code_simp
  from iteration_sends[OF d this, of e] s
  have "\<exists>r. trace (fst (iteration e filler w)) =
         trace w @ Sent filler ''(clears throat)'' ''default'' # r" by simp
  then show ?thesis
    using sessionInv_run[OF sessionInv_initial, of evs]
    unfolding sessionInv_def by blast
qed


subsection \<open>One loop, one item in flight\<close>

lemma flightOf_snoc [simp]: "flightOf (tr @ [x]) = flightStep (flightOf tr) x"
  by (simp add: flightOf_def)

lemma flightOf_emit [simp]: "flightOf (trace (emit x w)) = flightStep (flightOf (trace w)) x"
  by (simp add: emit_def)

lemma control_emit [simp]: "loops (emit x w) = loops w" "isProcessing (emit x w) = isProcessing w"
  "queue (emit x w) = queue w"
  by (simp_all add: emit_def)

lemma flightStep_other [simp]:
  "flightStep f (Segmented d) = f" "flightStep f (AddTurn a b c g) = f"
  "flightStep f (Enqueued item) = f" "flightStep f (Dequeued item s) = f"
  "flightStep f ArrivalTimeout = f" "flightStep f (Insert r) = f"
  "flightStep f InsertFailed = f" "flightStep f (UpdateTurn a b) = f"
  by (cases f; simp)+




lemma flight_shift [simp]: "flightOf (trace (shift b w)) = flightOf (trace w)"
  "loops (shift b w) = loops w" "isProcessing (shift b w) = isProcessing w"
  by (simp_all add: shift_def split: list.splits)





lemma filter_update_dead:
  assumes "k < length xs" and "\<not> P (xs ! k)" and "\<not> P y"
  shows "filter P (xs[k := y]) = filter P xs"
proof -
  have xs: "xs = take k xs @ xs ! k # drop (Suc k) xs"
    using assms(1) by (simp add: id_take_nth_drop)
  have "filter P xs = filter P (take k xs) @ filter P (drop (Suc k) xs)"
    by (subst xs) (simp add: assms(2))
  moreover have "xs[k := y] = take k xs @ y # drop (Suc k) xs"
    using assms(1) by (simp add: upd_conv_take_nth_drop)
  ultimately show ?thesis using assms(3) by simp
qed











subsection \<open>The trace is only a record\<close>


























subsection \<open>Double precision\<close>

lemma pow2_powi: "pow2 n = 2 powi n"
  by (simp add: pow2_def power_int_def inverse_eq_divide power_one_over)

lemma pow2_pos [simp]: "0 < pow2 n"
  by (simp add: pow2_powi)

lemma pow2_add: "pow2 (m + n) = pow2 m * pow2 n"
  by (simp add: pow2_powi power_int_add)

lemma pow2_mono: "m \<le> n \<Longrightarrow> pow2 m \<le> pow2 n"
  by (simp add: pow2_powi power_int_increasing)

lemma pow2_nonneg_int: "0 \<le> n \<Longrightarrow> pow2 n = of_int (2 ^ nat n)"
  by (simp add: pow2_def)

lemma exponent_bounds:
  assumes "0 < x"
  shows "pow2 (exponent x) \<le> x \<and> x < pow2 (exponent x + 1)"
proof -
  obtain p q where pq: "quotient_of x = (p, q)" by (cases "quotient_of x")
  then have q: "0 < q" using quotient_of_denom_pos by blast
  have x: "x = of_int p / of_int q" using pq by (simp add: quotient_of_div)
  have p: "0 < p" using assms q x by (simp add: zero_less_divide_iff)
  let ?e = "bitlen p - bitlen q"
  have bp: "1 \<le> bitlen p" "1 \<le> bitlen q"
    using p q by (auto simp: bitlen_alt_def)
  have bnd: "pow2 (bitlen i - 1) \<le> of_int i \<and> of_int i < pow2 (bitlen i)"
    if "0 < i" "1 \<le> bitlen i" for i
  proof -
    from bitlen_bounds[OF that(1)]
    have "(of_int (2 ^ nat (bitlen i - 1)) :: rat) \<le> of_int i"
      "(of_int i :: rat) < of_int (2 ^ nat (bitlen i))"
      by (simp_all only: of_int_le_iff of_int_less_iff)
    then show ?thesis using that(2) by (simp only: pow2_nonneg_int)
  qed
  from bnd[OF p bp(1)] have p1: "pow2 (bitlen p - 1) \<le> of_int p" "of_int p < pow2 (bitlen p)"
    by simp_all
  from bnd[OF q bp(2)] have q1: "pow2 (bitlen q - 1) \<le> of_int q" "of_int q < pow2 (bitlen q)"
    by simp_all
  have qq: "(0::rat) < of_int q" using q by simp
  have up: "x < pow2 (?e + 1)"
  proof -
    have "of_int p < pow2 (bitlen p)" by (rule p1)
    also have "\<dots> = pow2 (?e + 1) * pow2 (bitlen q - 1)" by (simp flip: pow2_add)
    also have "\<dots> \<le> pow2 (?e + 1) * of_int q" using q1(1) by simp
    finally show ?thesis unfolding x using qq by (simp add: pos_divide_less_eq)
  qed
  have lo: "pow2 (?e - 1) < x"
  proof -
    have "pow2 (?e - 1) * of_int q < pow2 (?e - 1) * pow2 (bitlen q)" using q1(2) by simp
    also have "\<dots> = pow2 (bitlen p - 1)" by (simp flip: pow2_add)
    also have "\<dots> \<le> of_int p" by (rule p1)
    finally show ?thesis unfolding x using qq by (simp add: pos_less_divide_eq)
  qed
  show ?thesis
  proof (cases "pow2 ?e \<le> x")
    case True
    then show ?thesis using up pq by (simp add: exponent_def)
  next
    case False
    then have "exponent x = ?e - 1" using pq by (simp add: exponent_def)
    then show ?thesis using lo False by simp
  qed
qed

lemma exponent_mono:
  assumes "0 < x" and "x \<le> y"
  shows "exponent x \<le> exponent y"
proof -
  have "pow2 (exponent x) < pow2 (exponent y + 1)"
    using exponent_bounds[of x] exponent_bounds[of y] assms by linarith
  then have "\<not> pow2 (exponent y + 1) \<le> pow2 (exponent x)" by simp
  then have "\<not> exponent y + 1 \<le> exponent x" using pow2_mono by blast
  then show ?thesis by simp
qed

lemma roundEven_ge: "of_int n \<le> m \<Longrightarrow> n \<le> roundEven m"
proof -
  assume "of_int n \<le> m"
  then have "n \<le> \<lfloor>m\<rfloor>" by (simp add: le_floor_iff)
  then show ?thesis by (simp add: roundEven_def Let_def)
qed

lemma roundEven_le: "m \<le> of_int n \<Longrightarrow> roundEven m \<le> n"
proof (cases "m = of_int \<lfloor>m\<rfloor>")
  case True
  assume "m \<le> of_int n"
  then have "\<lfloor>m\<rfloor> \<le> n" by (simp add: floor_le_iff)
  moreover have "m - of_int \<lfloor>m\<rfloor> = 0" using True by simp
  ultimately show ?thesis by (simp add: roundEven_def Let_def)
next
  case False
  assume a: "m \<le> of_int n"
  have "of_int \<lfloor>m\<rfloor> < m" using False of_int_floor_le[of m] by linarith
  then have "of_int \<lfloor>m\<rfloor> < (of_int n :: rat)" using a by linarith
  then have "\<lfloor>m\<rfloor> < n" by (simp only: of_int_less_iff)
  then show ?thesis by (simp add: roundEven_def Let_def)
qed

lemma pow2_nonneg [simp]: "0 \<le> pow2 n"
  using pow2_pos[of n] by (rule less_imp_le)

lemma pow2_neq0 [simp]: "pow2 n \<noteq> 0"
  by (simp add: pow2_powi)

lemma round64_pos:
  "0 < x \<Longrightarrow> round64 x =
     of_int (roundEven (x / pow2 (max (exponent x - 52) (- 1074)))) *
       pow2 (max (exponent x - 52) (- 1074))"
  by (simp add: round64_def Let_def)

lemma round64_minus: "round64 (- x) = - round64 x"
  by (simp add: round64_def Let_def)

lemma round64_nonneg: "0 \<le> y \<Longrightarrow> 0 \<le> round64 y"
proof (cases "y = 0")
  case True
  then show ?thesis by (simp add: round64_def)
next
  case False
  assume "0 \<le> y"
  with False have y: "0 < y" by simp
  define q where "q = max (exponent y - 52) (- 1074)"
  have "of_int 0 \<le> y / pow2 q" using y by (simp add: divide_nonneg_pos)
  then have "0 \<le> roundEven (y / pow2 q)" by (rule roundEven_ge)
  then have "0 \<le> of_int (roundEven (y / pow2 q)) * pow2 q" by simp
  then show ?thesis using round64_pos[OF y] by (simp add: q_def)
qed

lemma round64_ge:
  assumes x: "0 < x" and d: "round64 x = x" and xy: "x \<le> y"
  shows "x \<le> round64 y"
proof -
  define qx where "qx = max (exponent x - 52) (- 1074)"
  define qy where "qy = max (exponent y - 52) (- 1074)"
  define N where "N = roundEven (x / pow2 qx)"
  define R where "R = roundEven (y / pow2 qy)"
  have y: "0 < y" using x xy by simp
  have xf: "of_int N * pow2 qx = x" using round64_pos[OF x] d by (simp add: N_def qx_def)
  have ry: "round64 y = of_int R * pow2 qy" using round64_pos[OF y] by (simp add: R_def qy_def)
  have le: "exponent x \<le> exponent y" by (rule exponent_mono[OF x xy])
  show ?thesis
  proof (cases "exponent x = exponent y")
    case True
    then have q: "qy = qx" by (simp add: qx_def qy_def)
    have "of_int N = x / pow2 qx" by (simp flip: xf)
    also have "\<dots> \<le> y / pow2 qx" using xy by (simp add: divide_right_mono)
    finally have "N \<le> R" unfolding R_def q by (rule roundEven_ge)
    then have "(of_int N :: rat) \<le> of_int R" by (simp only: of_int_le_iff)
    then have "of_int N * pow2 qx \<le> of_int R * pow2 qx" by (simp add: mult_right_mono)
    then show ?thesis using xf ry q by simp
  next
    case False
    with le have lt: "exponent x + 1 \<le> exponent y" by simp
    have "0 < N"
    proof (rule ccontr)
      assume "\<not> 0 < N"
      then have "(of_int N :: rat) \<le> 0" by simp
      then have "of_int N * pow2 qx \<le> 0" by (simp add: mult_le_0_iff)
      with xf x show False by simp
    qed
    then have "(1::rat) \<le> of_int N" by (simp add: int_one_le_iff_zero_less)
    then have "1 * pow2 qx \<le> of_int N * pow2 qx" by (rule mult_right_mono) simp
    moreover have "pow2 (- 1074) \<le> pow2 qx" by (rule pow2_mono) (simp add: qx_def)
    ultimately have low: "pow2 (- 1074) \<le> y" using xf xy by linarith
    have ey: "- 1074 \<le> exponent y"
    proof (rule ccontr)
      assume "\<not> - 1074 \<le> exponent y"
      then have "exponent y + 1 \<le> - 1074" by simp
      from pow2_mono[OF this] exponent_bounds[OF y] low
      show False by linarith
    qed
    then have nn: "0 \<le> exponent y - qy" by (simp add: qy_def)
    define n where "n = (2::int) ^ nat (exponent y - qy)"
    have "of_int n * pow2 qy = pow2 (exponent y - qy) * pow2 qy"
      using pow2_nonneg_int[OF nn] by (simp add: n_def)
    also have "\<dots> = pow2 (exponent y)" by (simp flip: pow2_add)
    finally have n: "of_int n * pow2 qy = pow2 (exponent y)" .
    have "of_int n = pow2 (exponent y) / pow2 qy" by (simp flip: n)
    also have "\<dots> \<le> y / pow2 qy" using exponent_bounds[OF y] by (simp add: divide_right_mono)
    finally have "n \<le> R" unfolding R_def by (rule roundEven_ge)
    then have "(of_int n :: rat) \<le> of_int R" by (simp only: of_int_le_iff)
    then have "of_int n * pow2 qy \<le> round64 y" unfolding ry by (simp add: mult_right_mono)
    moreover have "x < pow2 (exponent y)"
      using exponent_bounds[OF x] pow2_mono[OF lt] by linarith
    ultimately show ?thesis using n by linarith
  qed
qed

lemma round64_le:
  assumes y: "0 < y" and yx: "y \<le> x" and d: "round64 x = x"
  shows "round64 y \<le> x"
proof -
  define qx where "qx = max (exponent x - 52) (- 1074)"
  define qy where "qy = max (exponent y - 52) (- 1074)"
  define N where "N = roundEven (x / pow2 qx)"
  define R where "R = roundEven (y / pow2 qy)"
  have x: "0 < x" using y yx by simp
  have xf: "of_int N * pow2 qx = x" using round64_pos[OF x] d by (simp add: N_def qx_def)
  have ry: "round64 y = of_int R * pow2 qy" using round64_pos[OF y] by (simp add: R_def qy_def)
  have "exponent y \<le> exponent x" by (rule exponent_mono[OF y yx])
  then have nn: "0 \<le> qx - qy" by (simp add: qx_def qy_def)
  define n where "n = N * 2 ^ nat (qx - qy)"
  have "of_int n * pow2 qy = of_int N * (pow2 (qx - qy) * pow2 qy)"
    using pow2_nonneg_int[OF nn] by (simp add: n_def)
  also have "\<dots> = of_int N * pow2 qx" by (simp flip: pow2_add)
  finally have n: "of_int n * pow2 qy = x" using xf by simp
  have "y / pow2 qy \<le> x / pow2 qy" using yx by (simp add: divide_right_mono)
  also have "\<dots> = of_int n" by (simp flip: n)
  finally have "R \<le> n" unfolding R_def by (rule roundEven_le)
  then have "(of_int R :: rat) \<le> of_int n" by (simp only: of_int_le_iff)
  then have "round64 y \<le> of_int n * pow2 qy" unfolding ry by (simp add: mult_right_mono)
  then show ?thesis using n by simp
qed

lemma number_le_fadd:
  assumes "isNumber x" and "0 \<le> t"
  shows "x \<le> fadd x t"
proof -
  from assms(1) have d: "round64 x = x" by (simp add: isNumber_def)
  consider "0 < x" | "x = 0" | "x < 0" by linarith
  then show ?thesis
  proof cases
    case 1
    then show ?thesis using round64_ge[OF 1 d, of "x + t"] assms(2) by (simp add: fadd_def)
  next
    case 2
    then show ?thesis using round64_nonneg[of t] assms(2) by (simp add: fadd_def)
  next
    case 3
    show ?thesis
    proof (cases "0 \<le> x + t")
      case True
      then show ?thesis using round64_nonneg[of "x + t"] 3 by (simp add: fadd_def)
    next
      case False
      have d': "round64 (- x) = - x" using d by (simp add: round64_minus)
      have "0 < - (x + t)" "- (x + t) \<le> - x" using False assms(2) by simp_all
      from round64_le[OF this d'] have "round64 (- (x + t)) \<le> - x" .
      then have "- round64 (x + t) \<le> - x" by (simp only: round64_minus)
      then show ?thesis by (simp add: fadd_def)
    qed
  qed
qed

lemma tenth_pos: "0 \<le> tenth"
  by (simp add: tenth_def)

lemma literals: "round64 (1 / 10) = tenth" "round64 (1 / 2) = 1 / 2" "isNumber 0"
  by code_simp+

lemma never_arrived_at_once: "isNumber x \<Longrightarrow> \<not> fadd x tenth < x"
  using number_le_fadd[of x tenth] tenth_pos by simp


subsection \<open>The two waits\<close>

lemma trace_resume_after:
  assumes "k < length (loops w)" and "continue e ok (loops w ! k) w = (w', out)"
  shows "\<exists>r. trace (resume e k ok w) = trace w' @ r"
proof (cases out)
  case (Await p)
  then show ?thesis using assms by (simp add: resume_def)
next
  case Next
  obtain w'' r where p: "processQueue e w' = (w'', r)" by (cases "processQueue e w'")
  from trace_processQueue[of e w'] p obtain s where "trace w'' = trace w' @ s" by auto
  then show ?thesis using assms Next p by (cases r) (simp_all add: resume_def)
qed

lemma drain_resume:
  assumes k: "k < length (loops w)"
    and c: "continue e ok (loops w ! k) w = drainWait e item tgt ps w1"
    and t: "trace w1 = trace w @ s"
  shows "(now e - ps < 60000 \<and> 1 / 2 < duration (getAudioStreamerState e tgt) \<and>
          resume e k ok w =
            w1\<lparr>loops := (loops w1)[k := DrainWait item tgt ps (100, worker w1)]\<rparr>) \<or>
         drainWaitOver item w (resume e k ok w)"
proof (cases "now e - ps < 60000 \<and> 1 / 2 < duration (getAudioStreamerState e tgt)")
  case True
  then have "continue e ok (loops w ! k) w = (w1, Await (DrainWait item tgt ps (100, worker w1)))"
    using c by (auto simp: drainWait_def workerWait_def)
  then show ?thesis using True k by (simp add: resume_def)
next
  case False
  let ?d = "emit (DrainWaitDone item) w1"
  obtain w' out where o: "commit item ?d = (w', out)" by (cases "commit item ?d")
  have c': "continue e ok (loops w ! k) w = (w', out)"
    using c False o by (auto simp: drainWait_def)
  from trace_commit[of item ?d] o obtain r where "trace w' = trace ?d @ r" by auto
  then have w': "trace w' = trace w @ s @ DrainWaitDone item # r" using t by (simp add: emit_def)
  from trace_resume_after[OF k c'] obtain r' where
    "trace (resume e k ok w) = trace w' @ r'" by blast
  then have "drop (length (trace w)) (trace (resume e k ok w)) = s @ DrainWaitDone item # r @ r'"
    using w' by simp
  then show ?thesis by (simp add: drainWaitOver_def)
qed

lemma arrival_poll:
  assumes "k < length (loops w)" and "loops w ! k = ArrivalWait item tgt pre ws h"
    and "now e - ws < 15000"
    and "\<not> fadd pre tenth < endOfQueueTime (getAudioStreamerState e tgt)"
  shows "resume e k ok w = w\<lparr>loops := (loops w)[k := ArrivalWait item tgt pre ws (250, worker w)]\<rparr>"
  using assms by (simp add: resume_def arrivalWait_def workerWait_def)

lemma arrival_left:
  assumes k: "k < length (loops w)" and p: "loops w ! k = ArrivalWait item tgt pre ws h"
    and l: "\<not> (now e - ws < 15000 \<and>
              \<not> fadd pre tenth < endOfQueueTime (getAudioStreamerState e tgt))"
  shows "arrivalWaitOver item k w (resume e k ok w)"
proof -
  let ?w1 = "if now e - ws < 15000 then w else emit ArrivalTimeout w"
  have c: "continue e ok (loops w ! k) w = drainWait e item tgt (now e) ?w1"
    using p l by (auto simp: arrivalWait_def)
  have t: "trace ?w1 = trace w @ (if now e - ws < 15000 then [] else [ArrivalTimeout])"
    by (simp add: emit_def)
  have k1: "k < length (loops ?w1)" using k by simp
  from drain_resume[OF k c t] show ?thesis
  proof
    assume "now e - now e < 60000 \<and> 1 / 2 < duration (getAudioStreamerState e tgt) \<and>
      resume e k ok w =
        ?w1\<lparr>loops := (loops ?w1)[k := DrainWait item tgt (now e) (100, worker ?w1)]\<rparr>"
    then have "loops (resume e k ok w) ! k = DrainWait item tgt (now e) (100, worker ?w1)"
      using k1 by simp
    then show ?thesis by (simp add: arrivalWaitOver_def)
  next
    assume "drainWaitOver item w (resume e k ok w)"
    then show ?thesis by (simp add: arrivalWaitOver_def)
  qed
qed

lemma drain_poll:
  assumes "k < length (loops w)" and "loops w ! k = DrainWait item tgt ps h"
    and "now e - ps < 60000" and "1 / 2 < duration (getAudioStreamerState e tgt)"
  shows "resume e k ok w = w\<lparr>loops := (loops w)[k := DrainWait item tgt ps (100, worker w)]\<rparr>"
  using assms by (auto simp: resume_def drainWait_def workerWait_def)

lemma drain_left:
  assumes k: "k < length (loops w)" and p: "loops w ! k = DrainWait item tgt ps h"
    and l: "\<not> (now e - ps < 60000 \<and> 1 / 2 < duration (getAudioStreamerState e tgt))"
  shows "drainWaitOver item w (resume e k ok w)"
proof -
  have c: "continue e ok (loops w ! k) w = drainWait e item tgt ps w" using p by simp
  from drain_resume[OF k c, of "[]"] l show ?thesis by auto
qed

lemma arrival_bound:
  "k < length (loops w) \<Longrightarrow> loops w ! k = ArrivalWait item tgt pre ws h \<Longrightarrow> ws \<le> t \<Longrightarrow>
   spaced 250 t es \<Longrightarrow> ws + 15000 \<le> t + 250 * int m \<Longrightarrow> m \<le> length es \<Longrightarrow> 0 < m \<Longrightarrow>
   \<exists>n\<le>m. arrivalWaitOver item k w (settles k (take n es) w)"
proof (induction m arbitrary: w t es h)
  case 0
  then show ?case by simp
next
  case (Suc m)
  from Suc.prems(6) obtain e es' where es: "es = e # es'" by (cases es) auto
  let ?w1 = "resume e k True w"
  from Suc.prems(4) es have sp: "t + 250 \<le> now e" "spaced 250 (now e) es'" by simp_all
  show ?case
  proof (cases "now e - ws < 15000 \<and>
       \<not> fadd pre tenth < endOfQueueTime (getAudioStreamerState e tgt)")
    case False
    from arrival_left[OF Suc.prems(1,2) False, of True]
    have "arrivalWaitOver item k w (settles k (take 1 es) w)" using es by simp
    then show ?thesis by (intro exI[of _ 1]) simp
  next
    case True
    from arrival_poll[OF Suc.prems(1,2), of e True] True
    have r: "?w1 = w\<lparr>loops := (loops w)[k := ArrivalWait item tgt pre ws (250, worker w)]\<rparr>"
      by simp
    have k1: "k < length (loops ?w1)"
      and p1: "loops ?w1 ! k = ArrivalWait item tgt pre ws (250, worker w)"
      and t1: "trace ?w1 = trace w"
      using Suc.prems(1) by (simp_all add: r)
    have m: "0 < m"
    proof (rule ccontr)
      assume "\<not> 0 < m"
      then have "m = 0" by simp
      with Suc.prems(5) sp(1) True show False by simp
    qed
    have b: "ws + 15000 \<le> now e + 250 * int m"
    proof -
      have "t + 250 * int (Suc m) = (t + 250) + 250 * int m" by (simp add: algebra_simps)
      with Suc.prems(5) sp(1) show ?thesis by linarith
    qed
    have a1: "ws \<le> now e" using Suc.prems(3) sp(1) by linarith
    have l1: "m \<le> length es'" using Suc.prems(6) es by simp
    from Suc.IH[OF k1 p1 a1 sp(2) b l1 m] obtain n where
      n: "n \<le> m" "arrivalWaitOver item k ?w1 (settles k (take n es') ?w1)" by blast
    have "arrivalWaitOver item k w (settles k (take (Suc n) es) w)"
      using n(2) es t1 by (simp add: arrivalWaitOver_def drainWaitOver_def)
    then show ?thesis using n(1) by (intro exI[of _ "Suc n"]) simp
  qed
qed

lemma drain_bound:
  "k < length (loops w) \<Longrightarrow> loops w ! k = DrainWait item tgt ps h \<Longrightarrow> ps \<le> t \<Longrightarrow>
   spaced 100 t es \<Longrightarrow> ps + 60000 \<le> t + 100 * int m \<Longrightarrow> m \<le> length es \<Longrightarrow> 0 < m \<Longrightarrow>
   \<exists>n\<le>m. drainWaitOver item w (settles k (take n es) w)"
proof (induction m arbitrary: w t es h)
  case 0
  then show ?case by simp
next
  case (Suc m)
  from Suc.prems(6) obtain e es' where es: "es = e # es'" by (cases es) auto
  let ?w1 = "resume e k True w"
  from Suc.prems(4) es have sp: "t + 100 \<le> now e" "spaced 100 (now e) es'" by simp_all
  show ?case
  proof (cases "now e - ps < 60000 \<and> 1 / 2 < duration (getAudioStreamerState e tgt)")
    case False
    from drain_left[OF Suc.prems(1,2) False, of True]
    have "drainWaitOver item w (settles k (take 1 es) w)" using es by simp
    then show ?thesis by (intro exI[of _ 1]) simp
  next
    case True
    from drain_poll[OF Suc.prems(1,2), of e True] True
    have r: "?w1 = w\<lparr>loops := (loops w)[k := DrainWait item tgt ps (100, worker w)]\<rparr>"
      by simp
    have k1: "k < length (loops ?w1)"
      and p1: "loops ?w1 ! k = DrainWait item tgt ps (100, worker w)"
      and t1: "trace ?w1 = trace w"
      using Suc.prems(1) by (simp_all add: r)
    have m: "0 < m"
    proof (rule ccontr)
      assume "\<not> 0 < m"
      then have "m = 0" by simp
      with Suc.prems(5) sp(1) True show False by simp
    qed
    have b: "ps + 60000 \<le> now e + 100 * int m"
    proof -
      have "t + 100 * int (Suc m) = (t + 100) + 100 * int m" by (simp add: algebra_simps)
      with Suc.prems(5) sp(1) show ?thesis by linarith
    qed
    have a1: "ps \<le> now e" using Suc.prems(3) sp(1) by linarith
    have l1: "m \<le> length es'" using Suc.prems(6) es by simp
    from Suc.IH[OF k1 p1 a1 sp(2) b l1 m] obtain n where
      n: "n \<le> m" "drainWaitOver item ?w1 (settles k (take n es') ?w1)" by blast
    have "drainWaitOver item w (settles k (take (Suc n) es) w)"
      using n(2) es t1 by (simp add: drainWaitOver_def)
    then show ?thesis using n(1) by (intro exI[of _ "Suc n"]) simp
  qed
qed

text \<open>
  C8, as amended. A dispatched item enters the arrival wait of its target speaker, with
  that speaker's end-of-queue time before the send (a number) as the baseline and a first
  request of 250 ms. When the wait of a suspended instance settles: in the arrival wait, within
  15000 ms of \<open>waitStart\<close> and while the end-of-queue time does not exceed the sum of the
  baseline and 0.1, as that sum is computed in double precision, the instance asks for
  another 250 ms and polls again; otherwise the wait is over (with a warning when the
  time is up) and the drain wait begins. In the drain wait, within 60000 ms of
  \<open>playStart\<close> and while the buffered duration is above 0.5, it asks for another 100 ms;
  otherwise the wait is over and the item is committed. As long as the waits of the
  instance settle, each no earlier than asked, an item in its arrival wait is in its drain
  wait or past it after at most 60 polls, and the drain wait of an item has ended after at
  most 600, whatever the audio engine reports. After a drain wait that timed out the loop
  sends the next queued item.
\<close>

theorem wait_bounds:
  "(trim (scriptText (voiceStyle w) (snd (detectSpeaker (itext item)))) \<noteq> [] \<and>
    isNumber (endOfQueueTime (getAudioStreamerState e (fst (detectSpeaker (itext item))))) \<longrightarrow>
      snd (iteration e item w) =
        Await (ArrivalWait item (fst (detectSpeaker (itext item)))
          (endOfQueueTime (getAudioStreamerState e (fst (detectSpeaker (itext item)))))
          (now e) (250, worker w)))
   \<and> (k < length (loops w) \<and> loops w ! k = ArrivalWait item tgt pre ws h \<longrightarrow>
      (if now e - ws < 15000 \<and> \<not> fadd pre tenth < endOfQueueTime (getAudioStreamerState e tgt)
       then resume e k ok w =
              w\<lparr>loops := (loops w)[k := ArrivalWait item tgt pre ws (250, worker w)]\<rparr>
       else continue e ok (loops w ! k) w =
              drainWait e item tgt (now e)
                (if now e - ws < 15000 then w else emit ArrivalTimeout w)))
   \<and> (k < length (loops w) \<and> loops w ! k = DrainWait item tgt ps h \<longrightarrow>
      (if now e - ps < 60000 \<and> 1 / 2 < duration (getAudioStreamerState e tgt)
       then resume e k ok w =
              w\<lparr>loops := (loops w)[k := DrainWait item tgt ps (100, worker w)]\<rparr>
       else continue e ok (loops w ! k) w = commit item (emit (DrainWaitDone item) w)))
   \<and> (k < length (loops w) \<and> loops w ! k = ArrivalWait item tgt pre ws h \<and>
       ws \<le> t \<and> spaced 250 t es \<and> 60 \<le> length es \<longrightarrow>
        (\<exists>n\<le>60. arrivalWaitOver item k w (settles k (take n es) w)))
   \<and> (k < length (loops w) \<and> loops w ! k = DrainWait item tgt ps h \<and>
       ps \<le> t \<and> spaced 100 t es \<and> 600 \<le> length es \<longrightarrow>
        (\<exists>n\<le>600. drainWaitOver item w (settles k (take n es) w)))
   \<and> (k < length (loops w) \<and> loops w ! k = DrainWait item tgt ps h \<and> 60000 \<le> now e - ps \<and>
       (refData item = None \<or> trim (currentTranslationBuffer w) = []) \<and>
       queue w = next # rest \<and> clientConnected e \<and>
       trim (scriptText (voiceStyle w) (snd (detectSpeaker (itext next)))) \<noteq> [] \<longrightarrow>
        (\<exists>r. trace (resume e k ok w) =
           trace w @ DrainWaitDone item #
             Sent next (scriptText (voiceStyle w) (snd (detectSpeaker (itext next))))
               (fst (detectSpeaker (itext next))) # r))"
proof (intro conjI impI)
  assume a: "trim (scriptText (voiceStyle w) (snd (detectSpeaker (itext item)))) \<noteq> [] \<and>
    isNumber (endOfQueueTime (getAudioStreamerState e (fst (detectSpeaker (itext item)))))"
  then have nb: "trim (scriptText (voiceStyle w) (snd (detectSpeaker (itext item)))) \<noteq> []"
    by simp
  obtain tgt tx where d: "detectSpeaker (itext item) = (tgt, tx)"
    by (cases "detectSpeaker (itext item)")
  have na: "\<not> fadd (endOfQueueTime (getAudioStreamerState e tgt)) tenth <
      endOfQueueTime (getAudioStreamerState e tgt)"
    using a d never_arrived_at_once by simp
  let ?s = "scriptText (voiceStyle w) tx"
  let ?w2 = "shift True (emit (Sent item ?s tgt)
          (w\<lparr>currentTurnId := orNull (turnId item), currentTranslationBuffer := []\<rparr>))"
  have ne: "?s \<noteq> []" "trim ?s \<noteq> []" using nb d by (auto simp: trim_def)
  have it: "iteration e item w =
      arrivalWait e item tgt (endOfQueueTime (getAudioStreamerState e tgt)) (now e) ?w2"
    using d ne by (simp add: iteration_def Let_def)
  have wk: "worker ?w2 = worker w"
    by (simp add: shift_def emit_def split: list.splits)
  show "snd (iteration e item w) =
        Await (ArrivalWait item (fst (detectSpeaker (itext item)))
          (endOfQueueTime (getAudioStreamerState e (fst (detectSpeaker (itext item)))))
          (now e) (250, worker w))"
    unfolding it using d wk na by (simp add: arrivalWait_def workerWait_def)
next
  assume a: "k < length (loops w) \<and> loops w ! k = ArrivalWait item tgt pre ws h"
  show "if now e - ws < 15000 \<and> \<not> fadd pre tenth < endOfQueueTime (getAudioStreamerState e tgt)
       then resume e k ok w =
              w\<lparr>loops := (loops w)[k := ArrivalWait item tgt pre ws (250, worker w)]\<rparr>
       else continue e ok (loops w ! k) w =
              drainWait e item tgt (now e)
                (if now e - ws < 15000 then w else emit ArrivalTimeout w)"
    using a by (auto simp: resume_def arrivalWait_def workerWait_def)
next
  assume a: "k < length (loops w) \<and> loops w ! k = DrainWait item tgt ps h"
  show "if now e - ps < 60000 \<and> 1 / 2 < duration (getAudioStreamerState e tgt)
       then resume e k ok w =
              w\<lparr>loops := (loops w)[k := DrainWait item tgt ps (100, worker w)]\<rparr>
       else continue e ok (loops w ! k) w = commit item (emit (DrainWaitDone item) w)"
    using a by (auto simp: resume_def drainWait_def workerWait_def)
next
  assume a: "k < length (loops w) \<and> loops w ! k = ArrivalWait item tgt pre ws h \<and>
       ws \<le> t \<and> spaced 250 t es \<and> 60 \<le> length es"
  then have "ws + 15000 \<le> t + 250 * int 60" by simp
  with a show "\<exists>n\<le>60. arrivalWaitOver item k w (settles k (take n es) w)"
    using arrival_bound[of k w item tgt pre ws h t es 60] by simp
next
  assume a: "k < length (loops w) \<and> loops w ! k = DrainWait item tgt ps h \<and>
       ps \<le> t \<and> spaced 100 t es \<and> 600 \<le> length es"
  then have "ps + 60000 \<le> t + 100 * int 600" by simp
  with a show "\<exists>n\<le>600. drainWaitOver item w (settles k (take n es) w)"
    using drain_bound[of k w item tgt ps h t es 600] by simp
next
  assume a: "k < length (loops w) \<and> loops w ! k = DrainWait item tgt ps h \<and> 60000 \<le> now e - ps \<and>
       (refData item = None \<or> trim (currentTranslationBuffer w) = []) \<and>
       queue w = next # rest \<and> clientConnected e \<and>
       trim (scriptText (voiceStyle w) (snd (detectSpeaker (itext next)))) \<noteq> []"
  let ?w1 = "(emit (DrainWaitDone item) w)\<lparr>currentTurnId := None\<rparr>"
  have c: "continue e ok (loops w ! k) w = (?w1, Next)"
    using a by (auto simp: drainWait_def commit_def emit_def split: option.splits)
  have d: "detectSpeaker (itext next) = (fst (detectSpeaker (itext next)), snd (detectSpeaker (itext next)))"
    by simp
  from processQueue_head_sends[of ?w1 "next" rest e, OF _ _ d] a
  obtain r where r: "trace (fst (processQueue e ?w1)) =
      trace ?w1 @ Sent next (scriptText (voiceStyle w) (snd (detectSpeaker (itext next))))
               (fst (detectSpeaker (itext next))) # r"
    by (auto simp: emit_def)
  have "trace (resume e k ok w) = trace (fst (processQueue e ?w1))"
    using a c by (simp add: resume_def split: prod.splits option.splits)
  then show "\<exists>r. trace (resume e k ok w) =
           trace w @ DrainWaitDone item #
             Sent next (scriptText (voiceStyle w) (snd (detectSpeaker (itext next))))
               (fst (detectSpeaker (itext next))) # r"
    using r by (simp add: emit_def)
qed



text \<open>
  A silent audio engine: one more poll in each wait, the two bounds on the schedules
  \<open>silentSchedule\<close>, and the next item sent after the drain wait timed out.
\<close>

theorem wait_bounds_witness:
  "snd (iteration (mkEnv True 0 5 0) (sampleItem ''Bye'') initial) =
     Await (ArrivalWait (sampleItem ''Bye'') ''default'' 0 0 (250, False))
   \<and> resume (mkEnv True 250 5 0) 0 True waiting = waiting
   \<and> resume (mkEnv True 100 5 0) 0 True draining = draining
   \<and> spaced 250 0 (silentSchedule 60 250 0) \<and> 60 \<le> length (silentSchedule 60 250 0)
   \<and> (\<exists>n\<le>60. arrivalWaitOver filler 0 waiting (settles 0 (take n (silentSchedule 60 250 0)) waiting))
   \<and> spaced 100 0 (silentSchedule 600 100 0) \<and> 600 \<le> length (silentSchedule 600 100 0)
   \<and> (\<exists>n\<le>600. drainWaitOver filler draining (settles 0 (take n (silentSchedule 600 100 0)) draining))
   \<and> (\<exists>r. trace (resume (mkEnv True 60000 5 0) 0 True draining) =
         DrainWaitDone filler # Sent (sampleItem ''Bye'') ''(casually) Bye'' ''default'' # r)"
proof -
  let ?e1 = "mkEnv True 250 5 0"
  let ?e2 = "mkEnv True 100 5 0"
  let ?e3 = "mkEnv True 60000 5 0"
  have h0: "trim (scriptText (voiceStyle initial) (snd (detectSpeaker (itext (sampleItem ''Bye''))))) \<noteq> [] \<and>
      isNumber (endOfQueueTime (getAudioStreamerState (mkEnv True 0 5 0)
         (fst (detectSpeaker (itext (sampleItem ''Bye''))))))"
    by code_simp
  from wait_bounds[where w = initial and item = "sampleItem ''Bye''" and e = "mkEnv True 0 5 0"] h0
  have c0: "snd (iteration (mkEnv True 0 5 0) (sampleItem ''Bye'') initial) =
        Await (ArrivalWait (sampleItem ''Bye'') (fst (detectSpeaker (itext (sampleItem ''Bye''))))
          (endOfQueueTime (getAudioStreamerState (mkEnv True 0 5 0)
             (fst (detectSpeaker (itext (sampleItem ''Bye''))))))
          (now (mkEnv True 0 5 0)) (250, worker initial))"
    by blast
  have v0: "fst (detectSpeaker (itext (sampleItem ''Bye''))) = ''default''"
    "endOfQueueTime (getAudioStreamerState (mkEnv True 0 5 0) ''default'') = 0"
    "now (mkEnv True 0 5 0) = 0" "worker initial = False"
    by code_simp+
  have h1: "0 < length (loops waiting) \<and> loops waiting ! 0 = ArrivalWait filler ''default'' 0 0 (250, False)"
    by code_simp
  have g1: "now ?e1 - 0 < 15000 \<and> \<not> fadd 0 tenth < endOfQueueTime (getAudioStreamerState ?e1 ''default'')"
    by code_simp
  from wait_bounds[where k = 0 and w = waiting and item = filler and tgt = "''default''"
      and pre = 0 and ws = 0 and h = "(250, False)" and e = ?e1 and ok = True] h1 g1
  have c1: "resume ?e1 0 True waiting =
      waiting\<lparr>loops := (loops waiting)[0 := ArrivalWait filler ''default'' 0 0 (250, worker waiting)]\<rparr>"
    by presburger
  have v1: "waiting\<lparr>loops := (loops waiting)[0 := ArrivalWait filler ''default'' 0 0 (250, worker waiting)]\<rparr> = waiting"
    by code_simp
  have h2: "0 < length (loops draining) \<and> loops draining ! 0 = DrainWait filler ''default'' 0 (100, False)"
    by code_simp
  have g2: "now ?e2 - 0 < 60000 \<and> 1 / 2 < duration (getAudioStreamerState ?e2 ''default'')"
    by code_simp
  from wait_bounds[where k = 0 and w = draining and item = filler and tgt = "''default''"
      and ps = 0 and h = "(100, False)" and e = ?e2 and ok = True] h2 g2
  have c2: "resume ?e2 0 True draining =
      draining\<lparr>loops := (loops draining)[0 := DrainWait filler ''default'' 0 (100, worker draining)]\<rparr>"
    by presburger
  have v2: "draining\<lparr>loops := (loops draining)[0 := DrainWait filler ''default'' 0 (100, worker draining)]\<rparr> = draining"
    by code_simp
  have h3: "spaced 250 0 (silentSchedule 60 250 0)" "60 \<le> length (silentSchedule 60 250 0)"
    by code_simp+
  from wait_bounds[where k = 0 and w = waiting and item = filler and tgt = "''default''"
      and pre = 0 and ws = 0 and h = "(250, False)" and t = 0
      and es = "silentSchedule 60 250 0"] h1 h3
  have c3: "\<exists>n\<le>60. arrivalWaitOver filler 0 waiting (settles 0 (take n (silentSchedule 60 250 0)) waiting)"
    by simp
  have h4: "spaced 100 0 (silentSchedule 600 100 0)" "600 \<le> length (silentSchedule 600 100 0)"
    by code_simp+
  from wait_bounds[where k = 0 and w = draining and item = filler and tgt = "''default''"
      and ps = 0 and h = "(100, False)" and t = 0
      and es = "silentSchedule 600 100 0"] h2 h4
  have c4: "\<exists>n\<le>600. drainWaitOver filler draining (settles 0 (take n (silentSchedule 600 100 0)) draining)"
    by simp
  have h5: "60000 \<le> now ?e3 - 0 \<and>
       (refData filler = None \<or> trim (currentTranslationBuffer draining) = []) \<and>
       queue draining = sampleItem ''Bye'' # [] \<and> clientConnected ?e3 \<and>
       trim (scriptText (voiceStyle draining) (snd (detectSpeaker (itext (sampleItem ''Bye''))))) \<noteq> []"
    by code_simp
  from wait_bounds[where k = 0 and w = draining and item = filler and tgt = "''default''"
      and ps = 0 and h = "(100, False)" and e = ?e3 and ok = True
      and ?next = "sampleItem ''Bye''" and rest = "[]"] h2 h5
  have c5: "\<exists>r. trace (resume ?e3 0 True draining) =
           trace draining @ DrainWaitDone filler #
             Sent (sampleItem ''Bye'')
               (scriptText (voiceStyle draining) (snd (detectSpeaker (itext (sampleItem ''Bye'')))))
               (fst (detectSpeaker (itext (sampleItem ''Bye'')))) # r"
    by simp
  have v5: "trace draining = []"
    "scriptText (voiceStyle draining) (snd (detectSpeaker (itext (sampleItem ''Bye'')))) = ''(casually) Bye''"
    "fst (detectSpeaker (itext (sampleItem ''Bye''))) = ''default''"
    by code_simp+
  show ?thesis
    using c0 c1 c2 h3 c3 h4 c4 c5 unfolding v0 v1 v2 v5 by simp
qed


text \<open>
  In \<open>thresholdRun\<close> the end-of-queue time read at the poll exceeds the baseline by more
  than 0.1, yet the instance polls again: the sum of the baseline and 0.1 in double
  precision is the reading itself. In \<open>cutRun\<close> the wait of \<open>a\<close> was posted to the worker
  that the cleanup of the effect terminated: 80 seconds after the send neither wait of \<open>a\<close>
  has ended, no timeout was noticed, and \<open>b\<close> is still queued.
\<close>

theorem wait_bounds_counterexample:
  "round64 (1 / 5) = sampleBaseline \<and> round64 sampleReading = sampleReading
   \<and> sampleBaseline + 1 / 10 < sampleReading
   \<and> fadd sampleBaseline tenth = sampleReading
   \<and> \<not> fadd sampleBaseline tenth < sampleReading
   \<and> loops (run thresholdRun initial) =
        [ArrivalWait \<lparr> itext = ''a'', refData = Some (snapshot ''s1'' ''a''), turnId = Some ''u'' \<rparr>
           ''default'' sampleBaseline 0 (250, True)]
   \<and> loops (run cutRun initial) = [Stalled]
   \<and> map (\<lambda>(i, t, s). itext i) (sends (trace (run cutRun initial))) = [''a'']
   \<and> drainWaitsEnded (trace (run cutRun initial)) = []
   \<and> ArrivalTimeout \<notin> set (trace (run cutRun initial))
   \<and> map itext (queue (run cutRun initial)) = [''b'']"
  by code_simp


end
